theory Spec2Isabelle
  imports Main "HOL-Library.Word"
begin

section \<open>Strings of the host language\<close>

text \<open>
  A JavaScript string is a sequence of 16-bit code units. String literals of the source are
  ASCII and are written through \<open>js\<close>.
\<close>

type_synonym jschar = "16 word"
type_synonym jsstring = "jschar list"

definition js :: "string \<Rightarrow> jsstring" where
  "js s = map of_char s"

text \<open>
  \<^verbatim>\<open>String.prototype.trim\<close> strips the code units that ECMAScript calls WhiteSpace or
  LineTerminator from both ends.
\<close>

definition isWhiteSpace :: "jschar \<Rightarrow> bool" where
  "isWhiteSpace c \<longleftrightarrow>
     c \<in> {0x09, 0x0A, 0x0B, 0x0C, 0x0D, 0x20, 0xA0, 0x1680, 0x2028, 0x2029, 0x202F, 0x205F,
          0x3000, 0xFEFF}
     \<or> (0x2000 \<le> c \<and> c \<le> 0x200A)"

definition trim :: "jsstring \<Rightarrow> jsstring" where
  "trim s = rev (dropWhile isWhiteSpace (rev (dropWhile isWhiteSpace s)))"

definition startsWith :: "jsstring \<Rightarrow> jsstring \<Rightarrow> bool" where
  "startsWith s p \<longleftrightarrow> take (length p) s = p"

text \<open>The character class \<^verbatim>\<open>[\n,]\<close> of the separator pattern.\<close>

definition isSep :: "jschar \<Rightarrow> bool" where
  "isSep c \<longleftrightarrow> c = 0x0A \<or> c = 0x2C"

text \<open>
  \<^verbatim>\<open>s.split(/[\n,]+/)\<close>: the text is cut at every maximal run of separators. \<open>cur\<close> is the
  piece read since the last run. A leading or trailing run leaves an empty piece, and the
  empty text gives one empty piece.
\<close>

function split_from :: "jsstring \<Rightarrow> jsstring \<Rightarrow> jsstring list" where
  "split_from cur [] = [cur]"
| "split_from cur (c # cs) =
     (if isSep c then cur # split_from [] (dropWhile isSep cs)
      else split_from (cur @ [c]) cs)"
  by pat_completeness auto
termination
  by (relation "measure (\<lambda>(cur, s). length s)")
     (auto simp: le_imp_less_Suc length_dropWhile_le)

definition split :: "jsstring \<Rightarrow> jsstring list" where
  "split s = split_from [] s"

text \<open>Decimal rendering of a number inside a template literal.\<close>

fun decimal :: "nat \<Rightarrow> jsstring" where
  "decimal n =
     (if n < 10 then [0x30 + of_nat n] else decimal (n div 10) @ [0x30 + of_nat (n mod 10)])"

declare decimal.simps [simp del]

section \<open>Data model\<close>

record TrackingHistory =
  date :: jsstring
  desc :: jsstring
  location :: jsstring

record Summary =
  awb :: jsstring
  courier :: jsstring
  service :: jsstring
  summary_status :: jsstring
  summary_date :: jsstring
  summary_desc :: jsstring
  amount :: jsstring
  weight :: jsstring

record Detail =
  origin :: jsstring
  destination :: jsstring
  shipper :: jsstring
  receiver :: jsstring

text \<open>
  The inner \<^verbatim>\<open>data\<close> object of a response. The code tests \<^verbatim>\<open>history\<close> for presence
  before reading it, so it is optional here.
\<close>

record Payload =
  summary :: Summary
  detail :: Detail
  history :: "TrackingHistory list option"

text \<open>
  \<^verbatim>\<open>TrackingData\<close>: the parsed response body. Its inner \<^verbatim>\<open>data\<close> field is \<open>payload\<close>
  here; the code reads it through \<^verbatim>\<open>item.data?.data\<close>, so it is optional.
\<close>

record TrackingData =
  status :: int
  message :: jsstring
  payload :: "Payload option"

record ResiItem =
  resi :: jsstring
  data :: "TrackingData option"
  loading :: bool
  error :: "jsstring option"
  lastUpdated :: "jsstring option"

section \<open>Environment and effects\<close>

text \<open>A thrown value: an \<^verbatim>\<open>Error\<close> with its message, or any other value.\<close>

datatype thrown = ErrorObj jsstring | NonError

record Response =
  ok :: bool
  http_status :: nat
  json :: "thrown + TrackingData"

text \<open>
  The environment: the configured credential (absent when undefined), the network, and the
  clock behind \<^verbatim>\<open>new Date().toISOString()\<close>. The network is asked with the number of
  effects performed so far, so two requests for one URL may be answered differently. The
  clock is read inside the callback of \<^verbatim>\<open>prev.map\<close>, once for each record it rewrites: it
  is asked with the number of effects performed so far and the position of the record in
  the list, so two records rewritten by one update may get different readings.
\<close>

record env =
  API_KEY :: "jsstring option"
  fetch :: "nat \<Rightarrow> jsstring \<Rightarrow> thrown + Response"
  now :: "nat \<Rightarrow> nat \<Rightarrow> jsstring"

datatype effect =
    Alert jsstring
  | Fetch jsstring
  | SetTimeout nat
  | ConsoleError jsstring thrown

text \<open>The component state that the operations read and write, with the log of effects.\<close>

record app =
  resiNumbers :: jsstring
  resiList :: "ResiItem list"
  isTracking :: bool
  effects :: "effect list"

text \<open>\<^verbatim>\<open>!API_KEY\<close> holds for an undefined and for an empty credential.\<close>

definition no_key :: "env \<Rightarrow> bool" where
  "no_key e \<longleftrightarrow> (case API_KEY e of None \<Rightarrow> True | Some k \<Rightarrow> k = [])"

definition alert :: "jsstring \<Rightarrow> app \<Rightarrow> app" where
  "alert m s = s\<lparr>effects := effects s @ [Alert m]\<rparr>"

section \<open>The remote lookup\<close>

definition track_url :: "jsstring \<Rightarrow> jsstring \<Rightarrow> jsstring" where
  "track_url k r =
     js ''https://api.binderbyte.com/v1/track?api_key='' @ k @ js ''&courier=pos&awb='' @ r"

text \<open>
  \<open>trackResi e t r\<close> returns the effects it performs (at most one request) and either the
  thrown value or the body. \<open>t\<close> is the number of effects performed before the call.
\<close>

definition trackResi :: "env \<Rightarrow> nat \<Rightarrow> jsstring \<Rightarrow> effect list \<times> (thrown + TrackingData)" where
  "trackResi e t r =
     (case API_KEY e of
        None \<Rightarrow> ([], Inl (ErrorObj (js ''API Key tidak ditemukan'')))
      | Some k \<Rightarrow>
          if k = [] then ([], Inl (ErrorObj (js ''API Key tidak ditemukan'')))
          else
            let url = track_url k r in
            case fetch e t url of
              Inl x \<Rightarrow> ([Fetch url], Inl x)
            | Inr response \<Rightarrow>
                if \<not> ok response
                then ([Fetch url],
                      Inl (ErrorObj (js ''HTTP error! status: '' @ decimal (http_status response))))
                else
                  (case json response of
                     Inl x \<Rightarrow> ([Fetch url], Inl x)
                   | Inr d \<Rightarrow>
                       if status d \<noteq> 200 \<and> status d \<noteq> 201
                       then ([Fetch url],
                             Inl (ErrorObj (if message d = []
                                            then js ''Gagal mengambil data tracking''
                                            else message d)))
                       else ([Fetch url], Inr d)))"

section \<open>Record updates\<close>

text \<open>The three updater callbacks handed to \<^verbatim>\<open>setResiList(prev => prev.map(...))\<close>.\<close>

definition markLoading :: "jsstring \<Rightarrow> ResiItem \<Rightarrow> ResiItem" where
  "markLoading r item =
     (if resi item = r then item\<lparr>loading := True, error := None\<rparr> else item)"

definition storeData :: "jsstring \<Rightarrow> TrackingData \<Rightarrow> jsstring \<Rightarrow> ResiItem \<Rightarrow> ResiItem" where
  "storeData r d t item =
     (if resi item = r
      then item\<lparr>data := Some d, loading := False, error := None, lastUpdated := Some t\<rparr>
      else item)"

definition thrown_message :: "thrown \<Rightarrow> jsstring" where
  "thrown_message x = (case x of ErrorObj m \<Rightarrow> m | NonError \<Rightarrow> js ''Gagal mengambil data'')"

definition storeError :: "jsstring \<Rightarrow> thrown \<Rightarrow> jsstring \<Rightarrow> ResiItem \<Rightarrow> ResiItem" where
  "storeError r x t item =
     (if resi item = r
      then item\<lparr>data := None, loading := False, error := Some (thrown_message x),
                lastUpdated := Some t\<rparr>
      else item)"

text \<open>
  \<^verbatim>\<open>prev.map(item => ...)\<close> with a callback that reads the clock: the record at position
  \<open>i\<close> is rewritten with the reading \<open>clock i\<close>.
\<close>

definition stamped ::
  "(jsstring \<Rightarrow> ResiItem \<Rightarrow> ResiItem) \<Rightarrow> (nat \<Rightarrow> jsstring) \<Rightarrow> ResiItem list \<Rightarrow> ResiItem list" where
  "stamped f clock items = map (\<lambda>(i, item). f (clock i) item) (enumerate 0 items)"

text \<open>
  One lookup attempt for the identifier \<open>r\<close>: mark, look up, store. The statements are the
  same text in the loop body of \<^verbatim>\<open>processResi\<close> and in \<^verbatim>\<open>trackSingleResi\<close>. The result
  is the list of the states the attempt goes through, oldest first.
\<close>

definition attempt :: "env \<Rightarrow> jsstring \<Rightarrow> app \<Rightarrow> app list" where
  "attempt e r s =
     (let s1 = s\<lparr>resiList := map (markLoading r) (resiList s)\<rparr>;
          res = trackResi e (length (effects s1)) r;
          s2 = s1\<lparr>effects := effects s1 @ fst res\<rparr>
      in case snd res of
           Inr d \<Rightarrow>
             [s1, s2,
              s2\<lparr>resiList :=
                   stamped (storeData r d) (now e (length (effects s2))) (resiList s2)\<rparr>]
         | Inl x \<Rightarrow>
             let s3 = s2\<lparr>effects := effects s2 @
                           [ConsoleError (js ''Error tracking '' @ r @ js '':'') x]\<rparr>
             in [s1, s2, s3,
                 s3\<lparr>resiList :=
                      stamped (storeError r x) (now e (length (effects s3))) (resiList s3)\<rparr>])"

section \<open>Batch submission and single refresh\<close>

text \<open>
  The loop of \<^verbatim>\<open>processResi\<close> over the indices of the local array \<open>new\<close>; the pause is
  taken when \<^verbatim>\<open>i < newResiList.length - 1\<close>.
\<close>

function loop :: "env \<Rightarrow> ResiItem list \<Rightarrow> nat \<Rightarrow> app \<Rightarrow> app list" where
  "loop e new i s =
     (if i < length new then
        let tr = attempt e (resi (new ! i)) s;
            s' = last tr;
            pause = (if int i < int (length new) - 1
                     then [s'\<lparr>effects := effects s' @ [SetTimeout 1000]\<rparr>] else [])
        in tr @ pause @ loop e new (Suc i) (last (s' # pause))
      else [])"
  by pat_completeness auto
termination
  by (relation "measure (\<lambda>(e, new, i, s). length new - i)") auto

declare loop.simps [simp del]

definition validResi :: "jsstring \<Rightarrow> bool" where
  "validResi r \<longleftrightarrow> length r > 0 \<and> startsWith r (js ''P'')"

text \<open>The local \<^verbatim>\<open>resiArray\<close> of \<^verbatim>\<open>processResi\<close>: split, trim, filter.\<close>

definition resiArray :: "jsstring \<Rightarrow> jsstring list" where
  "resiArray txt = filter validResi (map trim (split txt))"

definition newItem :: "jsstring \<Rightarrow> ResiItem" where
  "newItem r = \<lparr>resi = r, data = None, loading = False, error = None, lastUpdated = None\<rparr>"

text \<open>
  \<^verbatim>\<open>processResi\<close>: the states the component goes through after the call, oldest first;
  the last one is the state when the call has finished.
\<close>

definition processResi :: "env \<Rightarrow> app \<Rightarrow> app list" where
  "processResi e s =
     (if trim (resiNumbers s) = [] then [alert (js ''Silakan masukkan nomor resi'') s]
      else if no_key e
      then [alert (js ''API Key tidak ditemukan. Silakan cek konfigurasi environment variables.'') s]
      else
        if length (resiArray (resiNumbers s)) = 0
        then [alert (js ''Tidak ada nomor resi yang valid'') s]
        else
          let newResiList = map newItem (resiArray (resiNumbers s));
              s1 = s\<lparr>resiList := newResiList\<rparr>;
              s2 = s1\<lparr>isTracking := True\<rparr>;
              tr = loop e newResiList 0 s2
          in s1 # s2 # tr @ [(last (s2 # tr))\<lparr>isTracking := False\<rparr>])"

definition trackSingleResi :: "env \<Rightarrow> jsstring \<Rightarrow> app \<Rightarrow> app list" where
  "trackSingleResi e r s =
     (if no_key e then [alert (js ''API Key tidak ditemukan'') s] else attempt e r s)"

section \<open>Export, counters and panels\<close>

text \<open>
  A row is the object built for one record: its keys in order, each with its cell. The rows
  are what \<^verbatim>\<open>exportToExcel\<close> hands to the spreadsheet library as \<^verbatim>\<open>data\<close>.
\<close>

type_synonym row = "(jsstring \<times> jsstring) list"

text \<open>\<^verbatim>\<open>a || b\<close> for a string or null \<open>a\<close>: the empty string is falsy.\<close>

definition or_else :: "jsstring option \<Rightarrow> jsstring \<Rightarrow> jsstring" where
  "or_else a b = (case a of None \<Rightarrow> b | Some x \<Rightarrow> if x = [] then b else x)"

definition latestHistory :: "Payload \<Rightarrow> TrackingHistory option" where
  "latestHistory p =
     (case history p of None \<Rightarrow> None | Some [] \<Rightarrow> None | Some (h # _) \<Rightarrow> Some h)"

text \<open>
  The export of \<^verbatim>\<open>src/components/PosTrackingSystem.tsx\<close>. The first row is returned when
  \<^verbatim>\<open>!item.data?.data || item.data.status !== 200\<close>.
\<close>

definition errorRow :: "ResiItem \<Rightarrow> row" where
  "errorRow item =
     [(js ''No Resi'', resi item),
      (js ''Penerima'', js ''-''),
      (js ''Status Terakhir'', js ''-''),
      (js ''Pesan Error'', or_else (error item) (js ''Data tidak ditemukan''))]"

definition dataRow :: "ResiItem \<Rightarrow> Payload \<Rightarrow> row" where
  "dataRow item p =
     [(js ''No Resi'', resi item),
      (js ''Penerima'', receiver (detail p)),
      (js ''Status Terakhir'', (case latestHistory p of Some h \<Rightarrow> desc h | None \<Rightarrow> js ''-'')),
      (js ''Pesan Error'', [])]"

definition exportRow :: "ResiItem \<Rightarrow> row" where
  "exportRow item =
     (case data item of
        None \<Rightarrow> errorRow item
      | Some d \<Rightarrow>
          (case payload d of
             None \<Rightarrow> errorRow item
           | Some p \<Rightarrow> if status d \<noteq> 200 then errorRow item else dataRow item p))"

definition exportToExcel :: "ResiItem list \<Rightarrow> row list" where
  "exportToExcel items = map exportRow items"

text \<open>The export of the second source file, \<^verbatim>\<open>src/unnamed/part_000\<close>.\<close>

definition errorRow_part_000 :: "ResiItem \<Rightarrow> row" where
  "errorRow_part_000 item =
     [(js ''No Resi'', resi item),
      (js ''Status'', js ''ERROR''),
      (js ''Layanan'', js ''-''),
      (js ''Tanggal'', js ''-''),
      (js ''Pengirim'', js ''-''),
      (js ''Penerima'', js ''-''),
      (js ''Status Terakhir'', js ''-''),
      (js ''Pesan Error'', or_else (error item) (js ''Data tidak ditemukan''))]"

definition dataRow_part_000 :: "ResiItem \<Rightarrow> Payload \<Rightarrow> row" where
  "dataRow_part_000 item p =
     [(js ''No Resi'', resi item),
      (js ''Status'', summary_status (summary p)),
      (js ''Layanan'', service (summary p)),
      (js ''Tanggal'', summary_date (summary p)),
      (js ''Pengirim'', shipper (detail p)),
      (js ''Penerima'', receiver (detail p)),
      (js ''Status Terakhir'', (case latestHistory p of Some h \<Rightarrow> desc h | None \<Rightarrow> js ''-'')),
      (js ''Pesan Error'', [])]"

definition exportRow_part_000 :: "ResiItem \<Rightarrow> row" where
  "exportRow_part_000 item =
     (case data item of
        None \<Rightarrow> errorRow_part_000 item
      | Some d \<Rightarrow>
          (case payload d of
             None \<Rightarrow> errorRow_part_000 item
           | Some p \<Rightarrow>
               if status d \<noteq> 200 then errorRow_part_000 item else dataRow_part_000 item p))"

definition exportToExcel_part_000 :: "ResiItem list \<Rightarrow> row list" where
  "exportToExcel_part_000 items = map exportRow_part_000 items"

text \<open>\<^verbatim>\<open>item.data?.status === 200\<close> and \<^verbatim>\<open>item.data?.status !== 200 || item.error\<close>\<close>

definition successfulTrackings :: "ResiItem list \<Rightarrow> nat" where
  "successfulTrackings items =
     length (filter (\<lambda>item. case data item of None \<Rightarrow> False | Some d \<Rightarrow> status d = 200) items)"

definition failedTrackings :: "ResiItem list \<Rightarrow> nat" where
  "failedTrackings items =
     length (filter (\<lambda>item. (case data item of None \<Rightarrow> True | Some d \<Rightarrow> status d \<noteq> 200)
                           \<or> (case error item of None \<Rightarrow> False | Some m \<Rightarrow> m \<noteq> [])) items)"

text \<open>The conditions under which a record's card renders its detail and not-found panels.\<close>

definition showDetail :: "ResiItem \<Rightarrow> bool" where
  "showDetail item \<longleftrightarrow>
     (case data item of None \<Rightarrow> False | Some d \<Rightarrow> status d = 200 \<and> payload d \<noteq> None)"

definition showNotFound :: "ResiItem \<Rightarrow> bool" where
  "showNotFound item \<longleftrightarrow> (case data item of None \<Rightarrow> False | Some d \<Rightarrow> status d \<noteq> 200)"

section \<open>Notions used by the properties\<close>

text \<open>
  Cutting a text at every single comma or newline, as the specification describes the
  parser, and the tokens it keeps.
\<close>

fun pieces :: "jsstring \<Rightarrow> jsstring \<Rightarrow> jsstring list" where
  "pieces cur [] = [cur]"
| "pieces cur (c # cs) = (if isSep c then cur # pieces [] cs else pieces (cur @ [c]) cs)"

definition kept_tokens :: "jsstring \<Rightarrow> jsstring list" where
  "kept_tokens txt =
     filter (\<lambda>t. case t of [] \<Rightarrow> False | c # _ \<Rightarrow> c = 0x50) (map trim (pieces [] txt))"

text \<open>The loop of \<^verbatim>\<open>processResi\<close> seen as a recursion over the identifiers still to do.\<close>

fun run :: "env \<Rightarrow> jsstring list \<Rightarrow> app \<Rightarrow> app list" where
  "run e [] s = []"
| "run e (r # rs) s =
     (let tr = attempt e r s;
          s' = last tr;
          pause = (if rs \<noteq> [] then [s'\<lparr>effects := effects s' @ [SetTimeout 1000]\<rparr>] else [])
      in tr @ pause @ run e rs (last (s' # pause)))"

text \<open>Payload and error are not both set; exactly one of them is set.\<close>

definition exclusive :: "ResiItem \<Rightarrow> bool" where
  "exclusive item \<longleftrightarrow> data item = None \<or> error item = None"

definition settled :: "ResiItem \<Rightarrow> bool" where
  "settled item \<longleftrightarrow> (data item = None) \<noteq> (error item = None)"

text \<open>A record shows the outcome of a lookup.\<close>

definition reflects :: "thrown + TrackingData \<Rightarrow> ResiItem \<Rightarrow> bool" where
  "reflects res item \<longleftrightarrow>
     (case res of
        Inr d \<Rightarrow> data item = Some d \<and> error item = None
      | Inl x \<Rightarrow> data item = None \<and> error item = Some (thrown_message x))"

text \<open>
  Records with one identifier agree in payload, in-progress flag and error, and either all
  or none of them carry a time stamp. The stamps themselves may differ.
\<close>

definition alike :: "ResiItem \<Rightarrow> ResiItem \<Rightarrow> bool" where
  "alike a b \<longleftrightarrow>
     data a = data b \<and> loading a = loading b \<and> error a = error b \<and>
     (lastUpdated a = None) = (lastUpdated b = None)"

definition akin :: "ResiItem list \<Rightarrow> bool" where
  "akin xs \<longleftrightarrow> (\<forall>a \<in> set xs. \<forall>b \<in> set xs. resi a = resi b \<longrightarrow> alike a b)"

text \<open>A record is at rest and shows the outcome of some lookup of its own identifier.\<close>

definition resolved :: "env \<Rightarrow> ResiItem \<Rightarrow> bool" where
  "resolved e item \<longleftrightarrow>
     \<not> loading item \<and> lastUpdated item \<noteq> None \<and>
     (\<exists>t. reflects (snd (trackResi e t (resi item))) item)"



text \<open>
  The payload a record contributes to the export: present when the record holds a body of
  status 200 with an inner \<^verbatim>\<open>data\<close> object.
\<close>

definition exportable :: "ResiItem \<Rightarrow> Payload option" where
  "exportable item =
     (case data item of None \<Rightarrow> None | Some d \<Rightarrow> if status d = 200 then payload d else None)"

text \<open>Requests and pauses among the effects.\<close>

fun is_timing :: "effect \<Rightarrow> bool" where
  "is_timing (Fetch u) = True"
| "is_timing (SetTimeout n) = True"
| "is_timing _ = False"


fun is_fetch :: "effect \<Rightarrow> bool" where
  "is_fetch (Fetch u) = True"
| "is_fetch _ = False"


section \<open>Sample environments and states\<close>

definition app0 :: "jsstring \<Rightarrow> app" where
  "app0 txt = \<lparr>resiNumbers = txt, resiList = [], isTracking = False, effects = []\<rparr>"

text \<open>The text \<^verbatim>\<open>"P1, P2\nP3"\<close>.\<close>

definition text_3 :: jsstring where
  "text_3 = js ''P1, P2'' @ [0x0A] @ js ''P3''"

definition env_no_key :: env where
  "env_no_key =
     \<lparr>API_KEY = None, fetch = (\<lambda>t u. Inl (ErrorObj (js ''offline''))), now = (\<lambda>t i. js ''T'')\<rparr>"

definition env_offline :: env where
  "env_offline =
     \<lparr>API_KEY = Some (js ''k''), fetch = (\<lambda>t u. Inl (ErrorObj (js ''offline''))),
      now = (\<lambda>t i. js ''T'')\<rparr>"

definition body_201 :: TrackingData where
  "body_201 = \<lparr>status = 201, message = js ''created'', payload = None\<rparr>"

definition env_201 :: env where
  "env_201 =
     \<lparr>API_KEY = Some (js ''k''),
      fetch = (\<lambda>t u. Inr \<lparr>ok = True, http_status = 200, json = Inr body_201\<rparr>),
      now = (\<lambda>t i. js ''T'')\<rparr>"

text \<open>A record holding a body of status 201, and a record of a failed lookup.\<close>

definition item_201 :: ResiItem where
  "item_201 = \<lparr>resi = js ''P1'', data = Some body_201, loading = False, error = None,
               lastUpdated = Some (js ''T'')\<rparr>"

definition app_1 :: app where
  "app_1 = \<lparr>resiNumbers = [], resiList = [item_201], isTracking = False, effects = []\<rparr>"

definition item_offline :: ResiItem where
  "item_offline = \<lparr>resi = js ''P1'', data = None, loading = False, error = Some (js ''offline''),
               lastUpdated = Some (js ''T'')\<rparr>"

text \<open>A record holding a delivered parcel.\<close>

definition payload_1 :: Payload where
  "payload_1 =
     \<lparr>summary = \<lparr>awb = js ''P2'', courier = js ''pos'', service = js ''REG'',
                 summary_status = js ''DELIVERED'', summary_date = js ''D2'',
                 summary_desc = [], amount = [], weight = js ''1''\<rparr>,
      detail = \<lparr>origin = js ''A'', destination = js ''B'', shipper = js ''S'',
                receiver = js ''R''\<rparr>,
      history = Some [\<lparr>date = js ''D2'', desc = js ''done'', location = js ''B''\<rparr>,
                      \<lparr>date = js ''D1'', desc = js ''sent'', location = js ''A''\<rparr>]\<rparr>"

definition body_200 :: TrackingData where
  "body_200 = \<lparr>status = 200, message = js ''ok'', payload = Some payload_1\<rparr>"

definition item_200 :: ResiItem where
  "item_200 = \<lparr>resi = js ''P2'', data = Some body_200, loading = False, error = None,
               lastUpdated = Some (js ''T'')\<rparr>"

text \<open>States holding one failed and one fresh record; a network answering with status 200;
  a clock whose reading is the position of the record.\<close>

definition app_offline :: app where
  "app_offline = \<lparr>resiNumbers = [], resiList = [item_offline], isTracking = False, effects = []\<rparr>"

definition app_new :: app where
  "app_new = \<lparr>resiNumbers = [], resiList = [newItem (js ''P2'')], isTracking = False,
               effects = []\<rparr>"

definition env_200 :: env where
  "env_200 =
     \<lparr>API_KEY = Some (js ''k''),
      fetch = (\<lambda>t u. Inr \<lparr>ok = True, http_status = 200, json = Inr body_200\<rparr>),
      now = (\<lambda>t i. js ''T'')\<rparr>"

definition env_ticking :: env where
  "env_ticking =
     \<lparr>API_KEY = Some (js ''k''), fetch = (\<lambda>t u. Inl (ErrorObj (js ''offline''))),
      now = (\<lambda>t i. decimal i)\<rparr>"

section \<open>The parser\<close>

lemma validResi_iff: "validResi t \<longleftrightarrow> (case t of [] \<Rightarrow> False | c # _ \<Rightarrow> c = 0x50)"
  by (cases t) (auto simp: validResi_def startsWith_def js_def)

lemma trim_Nil [simp]: "trim [] = []"
  by (simp add: trim_def)

lemma trim_eq_Nil_iff: "trim s = [] \<longleftrightarrow> (\<forall>c \<in> set s. isWhiteSpace c)"
proof
  assume "trim s = []"
  then have a: "\<forall>c \<in> set (dropWhile isWhiteSpace s). isWhiteSpace c"
    by (simp add: trim_def dropWhile_eq_Nil_conv)
  have "dropWhile isWhiteSpace s = []"
  proof (rule ccontr)
    assume n: "dropWhile isWhiteSpace s \<noteq> []"
    then have "\<not> isWhiteSpace (hd (dropWhile isWhiteSpace s))" by (rule hd_dropWhile)
    with a n show False by (metis list.set_sel(1))
  qed
  then show "\<forall>c \<in> set s. isWhiteSpace c" by (simp add: dropWhile_eq_Nil_conv)
next
  assume "\<forall>c \<in> set s. isWhiteSpace c"
  then have a: "dropWhile isWhiteSpace s = []" by (simp add: dropWhile_eq_Nil_conv)
  show "trim s = []" unfolding trim_def a by simp
qed

lemma not_validResi_Nil [simp]: "\<not> validResi []"
  by (simp add: validResi_def)

lemma pieces_skip_seps:
  "filter validResi (map trim (pieces [] (dropWhile isSep cs))) =
   filter validResi (map trim (pieces [] cs))"
  by (induction cs) auto

lemma split_from_pieces:
  "filter validResi (map trim (split_from cur s)) = filter validResi (map trim (pieces cur s))"
  by (induction cur s rule: split_from.induct) (auto simp: pieces_skip_seps)

lemma resiArray_kept_tokens: "resiArray txt = kept_tokens txt"
  unfolding resiArray_def kept_tokens_def split_def split_from_pieces
  by (rule filter_cong) (auto simp: validResi_iff)

lemma split_from_chars: "p \<in> set (split_from cur s) \<Longrightarrow> set p \<subseteq> set cur \<union> set s"
proof (induction cur s rule: split_from.induct)
  case (1 cur)
  then show ?case by simp
next
  case (2 cur c cs)
  show ?case
  proof (cases "isSep c")
    case True
    with 2 have "p = cur \<or> p \<in> set (split_from [] (dropWhile isSep cs))" by simp
    then show ?thesis
    proof
      assume "p = cur" then show ?thesis by auto
    next
      assume "p \<in> set (split_from [] (dropWhile isSep cs))"
      with 2 True have "set p \<subseteq> set [] \<union> set (dropWhile isSep cs)" by blast
      moreover have "set (dropWhile isSep cs) \<subseteq> set cs" using set_dropWhileD by fastforce
      ultimately show ?thesis by auto
    qed
  next
    case False
    with 2 show ?thesis by auto
  qed
qed

lemma blank_resiArray: "trim txt = [] \<Longrightarrow> resiArray txt = []"
proof -
  assume "trim txt = []"
  then have ws: "\<forall>c \<in> set txt. isWhiteSpace c" by (simp add: trim_eq_Nil_iff)
  have "\<forall>p \<in> set (split txt). trim p = []"
  proof
    fix p assume "p \<in> set (split txt)"
    then have "p \<in> set (split_from [] txt)" by (simp add: split_def)
    then have "set p \<subseteq> set [] \<union> set txt" by (rule split_from_chars)
    then have "set p \<subseteq> set txt" by simp
    with ws show "trim p = []" by (auto simp: trim_eq_Nil_iff)
  qed
  then show ?thesis by (auto simp: resiArray_def filter_empty_conv)
qed

section \<open>One lookup attempt\<close>

lemma attempt_not_Nil [simp]: "attempt e r s \<noteq> []"
  by (simp add: attempt_def Let_def split: sum.splits)

lemma last_attempt_in: "last (attempt e r s) \<in> set (attempt e r s)"
  by simp

lemma attempt_isTracking: "st \<in> set (attempt e r s) \<Longrightarrow> isTracking st = isTracking s"
  by (auto simp: attempt_def Let_def split: sum.splits)

lemma attempt_resiNumbers: "st \<in> set (attempt e r s) \<Longrightarrow> resiNumbers st = resiNumbers s"
  by (auto simp: attempt_def Let_def split: sum.splits)

lemma resi_markLoading [simp]: "resi (markLoading r x) = resi x"
  by (simp add: markLoading_def)

lemma resi_storeData [simp]: "resi (storeData r d t x) = resi x"
  by (simp add: storeData_def)

lemma resi_storeError [simp]: "resi (storeError r y t x) = resi x"
  by (simp add: storeError_def)

lemma length_stamped [simp]: "length (stamped f c xs) = length xs"
  by (simp add: stamped_def)

lemma nth_stamped [simp]: "i < length xs \<Longrightarrow> stamped f c xs ! i = f (c i) (xs ! i)"
  by (simp add: stamped_def nth_enumerate_eq)

lemma in_set_stamped:
  "y \<in> set (stamped f c xs) \<Longrightarrow> \<exists>i < length xs. y = f (c i) (xs ! i)"
  by (auto simp: in_set_conv_nth)

lemma attempt_resiList:
  assumes "st \<in> set (attempt e r s)"
  shows "resiList st = map (markLoading r) (resiList s)
       \<or> (\<exists>d c. snd (trackResi e (length (effects s)) r) = Inr d \<and>
                 resiList st = stamped (storeData r d) c (map (markLoading r) (resiList s)))
       \<or> (\<exists>y c. snd (trackResi e (length (effects s)) r) = Inl y \<and>
                 resiList st = stamped (storeError r y) c (map (markLoading r) (resiList s)))"
proof (cases "snd (trackResi e (length (effects s)) r)")
  case (Inl y)
  with assms have "resiList st = map (markLoading r) (resiList s)
     \<or> resiList st = stamped (storeError r y) (now e (Suc (length (effects s) +
           length (fst (trackResi e (length (effects s)) r))))) (map (markLoading r) (resiList s))"
    by (auto simp: attempt_def Let_def simp del: map_eq_conv)
  with Inl show ?thesis by blast
next
  case (Inr d)
  with assms have "resiList st = map (markLoading r) (resiList s)
     \<or> resiList st = stamped (storeData r d) (now e (length (effects s) +
           length (fst (trackResi e (length (effects s)) r)))) (map (markLoading r) (resiList s))"
    by (auto simp: attempt_def Let_def simp del: map_eq_conv)
  with Inr show ?thesis by blast
qed

lemma attempt_hd:
  "hd (attempt e r s) = s\<lparr>resiList := map (markLoading r) (resiList s)\<rparr>"
  by (simp add: attempt_def Let_def split: sum.splits)

lemma attempt_last_resiList:
  "(\<exists>d c. snd (trackResi e (length (effects s)) r) = Inr d \<and>
          resiList (last (attempt e r s)) =
            stamped (storeData r d) c (map (markLoading r) (resiList s)))
   \<or> (\<exists>y c. snd (trackResi e (length (effects s)) r) = Inl y \<and>
          resiList (last (attempt e r s)) =
            stamped (storeError r y) c (map (markLoading r) (resiList s)))"
proof (cases "snd (trackResi e (length (effects s)) r)")
  case (Inl y)
  then have "resiList (last (attempt e r s)) =
      stamped (storeError r y) (now e (Suc (length (effects s) +
           length (fst (trackResi e (length (effects s)) r))))) (map (markLoading r) (resiList s))"
    by (simp add: attempt_def Let_def)
  with Inl show ?thesis by blast
next
  case (Inr d)
  then have "resiList (last (attempt e r s)) =
      stamped (storeData r d) (now e (length (effects s) +
           length (fst (trackResi e (length (effects s)) r)))) (map (markLoading r) (resiList s))"
    by (simp add: attempt_def Let_def)
  with Inr show ?thesis by blast
qed

lemma attempt_effects_last:
  "effects (last (attempt e r s)) =
     effects s @ fst (trackResi e (length (effects s)) r) @
     (case snd (trackResi e (length (effects s)) r) of
        Inl y \<Rightarrow> [ConsoleError (js ''Error tracking '' @ r @ js '':'') y] | Inr d \<Rightarrow> [])"
  by (simp add: attempt_def Let_def split: sum.splits)

lemma trackResi_fst:
  "fst (trackResi e t r) =
     (case API_KEY e of None \<Rightarrow> [] | Some k \<Rightarrow> if k = [] then [] else [Fetch (track_url k r)])"
  by (simp add: trackResi_def Let_def split: option.splits sum.splits)

lemma attempt_shape:
  assumes "st \<in> set (attempt e r s)"
  shows "length (resiList st) = length (resiList s) \<and>
    (\<forall>i < length (resiList s). \<exists>f. resiList st ! i = f (resiList s ! i)
      \<and> (\<forall>x. resi (f x) = resi x)
      \<and> (\<forall>x. resi x \<noteq> r \<longrightarrow> f x = x)
      \<and> (\<forall>x. exclusive x \<longrightarrow> exclusive (f x))
      \<and> (\<forall>x. loading (f x) \<longrightarrow> \<not> loading x \<longrightarrow> resi x = r))"
proof -
  from attempt_resiList [OF assms] consider
      "resiList st = map (markLoading r) (resiList s)"
    | d c where "resiList st = stamped (storeData r d) c (map (markLoading r) (resiList s))"
    | y c where "resiList st = stamped (storeError r y) c (map (markLoading r) (resiList s))"
    by blast
  then show ?thesis
  proof cases
    case 1
    show ?thesis
    proof (intro conjI allI impI)
      show "length (resiList st) = length (resiList s)" by (simp add: 1)
      fix i assume "i < length (resiList s)"
      then show "\<exists>f. resiList st ! i = f (resiList s ! i)
        \<and> (\<forall>x. resi (f x) = resi x)
        \<and> (\<forall>x. resi x \<noteq> r \<longrightarrow> f x = x)
        \<and> (\<forall>x. exclusive x \<longrightarrow> exclusive (f x))
        \<and> (\<forall>x. loading (f x) \<longrightarrow> \<not> loading x \<longrightarrow> resi x = r)"
        by (intro exI [of _ "markLoading r"]) (simp add: 1 markLoading_def exclusive_def)
    qed
  next
    case 2
    show ?thesis
    proof (intro conjI allI impI)
      show "length (resiList st) = length (resiList s)" by (simp add: 2)
      fix i assume "i < length (resiList s)"
      then show "\<exists>f. resiList st ! i = f (resiList s ! i)
        \<and> (\<forall>x. resi (f x) = resi x)
        \<and> (\<forall>x. resi x \<noteq> r \<longrightarrow> f x = x)
        \<and> (\<forall>x. exclusive x \<longrightarrow> exclusive (f x))
        \<and> (\<forall>x. loading (f x) \<longrightarrow> \<not> loading x \<longrightarrow> resi x = r)"
        by (intro exI [of _ "storeData r d (c i) \<circ> markLoading r"])
           (simp add: 2 markLoading_def storeData_def exclusive_def)
    qed
  next
    case 3
    show ?thesis
    proof (intro conjI allI impI)
      show "length (resiList st) = length (resiList s)" by (simp add: 3)
      fix i assume "i < length (resiList s)"
      then show "\<exists>f. resiList st ! i = f (resiList s ! i)
        \<and> (\<forall>x. resi (f x) = resi x)
        \<and> (\<forall>x. resi x \<noteq> r \<longrightarrow> f x = x)
        \<and> (\<forall>x. exclusive x \<longrightarrow> exclusive (f x))
        \<and> (\<forall>x. loading (f x) \<longrightarrow> \<not> loading x \<longrightarrow> resi x = r)"
        by (intro exI [of _ "storeError r y (c i) \<circ> markLoading r"])
           (simp add: 3 markLoading_def storeError_def exclusive_def)
    qed
  qed
qed

lemma attempt_length:
  "st \<in> set (attempt e r s) \<Longrightarrow> length (resiList st) = length (resiList s)"
  using attempt_shape by blast

lemma attempt_resis:
  assumes "st \<in> set (attempt e r s)"
  shows "map resi (resiList st) = map resi (resiList s)"
proof (rule nth_equalityI)
  show "length (map resi (resiList st)) = length (map resi (resiList s))"
    using attempt_length [OF assms] by simp
next
  fix i assume "i < length (map resi (resiList st))"
  then have i: "i < length (resiList s)" using attempt_length [OF assms] by simp
  from attempt_shape [OF assms] i obtain f where
    "resiList st ! i = f (resiList s ! i)" "\<And>x. resi (f x) = resi x"
    by blast
  with i show "map resi (resiList st) ! i = map resi (resiList s) ! i"
    using attempt_length [OF assms] by simp
qed

lemma attempt_exclusive:
  assumes "st \<in> set (attempt e r s)" and "\<forall>x \<in> set (resiList s). exclusive x"
  shows "\<forall>x \<in> set (resiList st). exclusive x"
proof
  fix x assume "x \<in> set (resiList st)"
  then obtain i where i: "i < length (resiList s)" "x = resiList st ! i"
    using attempt_length [OF assms(1)] by (auto simp: in_set_conv_nth)
  from attempt_shape [OF assms(1)] i(1) obtain f where f: "resiList st ! i = f (resiList s ! i)"
    "\<And>x. exclusive x \<Longrightarrow> exclusive (f x)"
    by blast
  have "exclusive (resiList s ! i)" using assms(2) i(1) by simp
  with f i(2) show "exclusive x" by simp
qed

lemma attempt_other:
  assumes "st \<in> set (attempt e r s)" and "i < length (resiList s)"
    and "resi (resiList s ! i) \<noteq> r"
  shows "resiList st ! i = resiList s ! i"
proof -
  from attempt_shape [OF assms(1)] assms(2) obtain f where "resiList st ! i = f (resiList s ! i)"
    "\<And>x. resi x \<noteq> r \<Longrightarrow> f x = x"
    by blast
  with assms(3) show ?thesis by simp
qed

lemma akin_map:
  assumes "akin xs" and "\<And>a. resi (g a) = resi a"
    and "\<And>a b. resi a = resi b \<Longrightarrow> alike a b \<Longrightarrow> alike (g a) (g b)"
  shows "akin (map g xs)"
  using assms by (auto simp: akin_def)

lemma akin_stamped:
  assumes "akin xs" and "\<And>t a. resi (f t a) = resi a"
    and "\<And>t u a b. resi a = resi b \<Longrightarrow> alike a b \<Longrightarrow> alike (f t a) (f u b)"
  shows "akin (stamped f c xs)"
  unfolding akin_def
proof (intro ballI impI)
  fix a b
  assume "a \<in> set (stamped f c xs)" "b \<in> set (stamped f c xs)" and e: "resi a = resi b"
  then obtain i j where i: "i < length xs" "a = f (c i) (xs ! i)"
    and j: "j < length xs" "b = f (c j) (xs ! j)"
    using in_set_stamped by blast
  from e i j assms(2) have "resi (xs ! i) = resi (xs ! j)" by simp
  moreover from this assms(1) i(1) j(1) have "alike (xs ! i) (xs ! j)"
    by (simp add: akin_def)
  ultimately show "alike a b" unfolding i(2) j(2) by (rule assms(3))
qed

lemma attempt_akin:
  assumes "st \<in> set (attempt e r s)" and "akin (resiList s)"
  shows "akin (resiList st)"
proof -
  have m: "akin (map (markLoading r) (resiList s))"
    using assms(2) by (rule akin_map) (simp_all add: markLoading_def alike_def)
  from attempt_resiList [OF assms(1)] consider
      "resiList st = map (markLoading r) (resiList s)"
    | d c where "resiList st = stamped (storeData r d) c (map (markLoading r) (resiList s))"
    | y c where "resiList st = stamped (storeError r y) c (map (markLoading r) (resiList s))"
    by blast
  then show ?thesis
  proof cases
    case 1
    with m show ?thesis by simp
  next
    case 2
    show ?thesis unfolding 2
      using m by (rule akin_stamped) (simp_all add: storeData_def alike_def)
  next
    case 3
    show ?thesis unfolding 3
      using m by (rule akin_stamped) (simp_all add: storeError_def alike_def)
  qed
qed


lemma attempt_last_item:
  assumes "i < length (resiList s)"
  shows "(\<exists>d t. snd (trackResi e (length (effects s)) r) = Inr d \<and>
            resiList (last (attempt e r s)) ! i = storeData r d t (markLoading r (resiList s ! i)))
       \<or> (\<exists>y t. snd (trackResi e (length (effects s)) r) = Inl y \<and>
            resiList (last (attempt e r s)) ! i = storeError r y t (markLoading r (resiList s ! i)))"
proof -
  from attempt_last_resiList [of e s r] consider
      d c where "snd (trackResi e (length (effects s)) r) = Inr d"
        "resiList (last (attempt e r s)) =
           stamped (storeData r d) c (map (markLoading r) (resiList s))"
    | y c where "snd (trackResi e (length (effects s)) r) = Inl y"
        "resiList (last (attempt e r s)) =
           stamped (storeError r y) c (map (markLoading r) (resiList s))"
    by blast
  then show ?thesis
  proof cases
    case 1
    have "resiList (last (attempt e r s)) ! i = storeData r d (c i) (markLoading r (resiList s ! i))"
      using assms by (simp add: 1(2))
    with 1(1) show ?thesis by blast
  next
    case 2
    have "resiList (last (attempt e r s)) ! i = storeError r y (c i) (markLoading r (resiList s ! i))"
      using assms by (simp add: 2(2))
    with 2(1) show ?thesis by blast
  qed
qed


lemma attempt_last_reflects:
  assumes "i < length (resiList s)" and "resi (resiList s ! i) = r"
  shows "reflects (snd (trackResi e (length (effects s)) r)) (resiList (last (attempt e r s)) ! i)
       \<and> \<not> loading (resiList (last (attempt e r s)) ! i)
       \<and> lastUpdated (resiList (last (attempt e r s)) ! i) \<noteq> None"
  using attempt_last_item [OF assms(1), of e r] assms(2)
  by (auto simp: reflects_def storeData_def storeError_def markLoading_def)

lemma attempt_last_resolved:
  assumes "i < length (resiList s)" and "resi (resiList s ! i) = r"
  shows "resolved e (resiList (last (attempt e r s)) ! i)"
proof -
  let ?z = "resiList (last (attempt e r s)) ! i"
  have fin: "last (attempt e r s) \<in> set (attempt e r s)" by simp
  have "resi ?z = resi (resiList s ! i)"
    using attempt_resis [OF fin] attempt_length [OF fin] assms(1) by (metis nth_map)
  with assms(2) have z: "resi ?z = r" by simp
  from attempt_last_reflects [OF assms, of e]
  have "reflects (snd (trackResi e (length (effects s)) (resi ?z))) ?z"
    and "\<not> loading ?z" and "lastUpdated ?z \<noteq> None"
    by (simp_all add: z)
  then show ?thesis unfolding resolved_def by blast
qed

section \<open>The loop\<close>

lemma run_Cons_last:
  "run e (r # rs) s =
     attempt e r s @
     (if rs = [] then []
      else (last (attempt e r s))\<lparr>effects := effects (last (attempt e r s)) @ [SetTimeout 1000]\<rparr> #
           run e rs ((last (attempt e r s))\<lparr>effects := effects (last (attempt e r s)) @ [SetTimeout 1000]\<rparr>))"
  by (simp add: Let_def)

lemma run_inv_on:
  assumes "Q s" and "set rs \<subseteq> R"
    and "\<And>r s st. r \<in> R \<Longrightarrow> Q s \<Longrightarrow> st \<in> set (attempt e r s) \<Longrightarrow> P st"
    and "\<And>r s. r \<in> R \<Longrightarrow> Q s \<Longrightarrow> Q (last (attempt e r s))"
    and "\<And>s. Q s \<Longrightarrow> Q (s\<lparr>effects := effects s @ [SetTimeout 1000]\<rparr>)"
    and "\<And>s. Q s \<Longrightarrow> P s"
  shows "(\<forall>st \<in> set (run e rs s). P st) \<and> Q (last (s # run e rs s))"
  using assms(1,2)
proof (induction rs arbitrary: s)
  case Nil
  then show ?case by simp
next
  case (Cons r rs)
  let ?s' = "last (attempt e r s)"
  have rR: "r \<in> R" and sub: "set rs \<subseteq> R" using Cons.prems(2) by auto
  have q': "Q ?s'" using rR Cons.prems(1) by (rule assms(4))
  have p: "\<forall>st \<in> set (attempt e r s). P st" using rR Cons.prems(1) assms(3) by blast
  show ?case
  proof (cases "rs = []")
    case True
    with p q' show ?thesis by (simp add: Let_def)
  next
    case False
    let ?s'' = "?s'\<lparr>effects := effects ?s' @ [SetTimeout 1000]\<rparr>"
    have q'': "Q ?s''" using q' by (rule assms(5))
    from Cons.IH [OF q'' sub]
    have ih: "(\<forall>st\<in>set (run e rs ?s''). P st) \<and> Q (last (?s'' # run e rs ?s''))" .
    have r: "run e (r # rs) s = attempt e r s @ [?s''] @ run e rs ?s''"
      using False by (simp add: Let_def)
    show ?thesis unfolding r using p q'' ih assms(6) [OF q''] by auto
  qed
qed

lemma run_inv1:
  assumes "P s"
    and "\<And>r s st. P s \<Longrightarrow> st \<in> set (attempt e r s) \<Longrightarrow> P st"
    and "\<And>s. P s \<Longrightarrow> P (s\<lparr>effects := effects s @ [SetTimeout 1000]\<rparr>)"
  shows "\<forall>st \<in> set (run e rs s). P st"
proof -
  have "(\<forall>st \<in> set (run e rs s). P st) \<and> P (last (s # run e rs s))"
  proof (rule run_inv_on [where R = UNIV and Q = P])
    show "P s" by (rule assms(1))
    show "set rs \<subseteq> UNIV" by simp
    show "\<And>r s st. r \<in> UNIV \<Longrightarrow> P s \<Longrightarrow> st \<in> set (attempt e r s) \<Longrightarrow> P st"
      by (rule assms(2))
    show "\<And>r s. r \<in> UNIV \<Longrightarrow> P s \<Longrightarrow> P (last (attempt e r s))"
      by (rule assms(2) [OF _ last_attempt_in])
    show "\<And>s. P s \<Longrightarrow> P (s\<lparr>effects := effects s @ [SetTimeout 1000]\<rparr>)"
      by (rule assms(3))
    show "\<And>s. P s \<Longrightarrow> P s" .
  qed
  then show ?thesis ..
qed

lemma run_resis:
  assumes "st \<in> set (run e rs s)"
  shows "map resi (resiList st) = map resi (resiList s)"
proof -
  have "\<forall>st \<in> set (run e rs s). map resi (resiList st) = map resi (resiList s)"
  proof (rule run_inv1)
    show "map resi (resiList s) = map resi (resiList s)" ..
  next
    fix r s' st
    assume "map resi (resiList s') = map resi (resiList s)" "st \<in> set (attempt e r s')"
    then show "map resi (resiList st) = map resi (resiList s)" by (simp add: attempt_resis)
  next
    fix s'
    assume "map resi (resiList s') = map resi (resiList s)"
    then show "map resi (resiList (s'\<lparr>effects := effects s' @ [SetTimeout 1000]\<rparr>)) =
               map resi (resiList s)" by simp
  qed
  with assms show ?thesis by blast
qed

lemma run_length:
  "st \<in> set (run e rs s) \<Longrightarrow> length (resiList st) = length (resiList s)"
  by (drule run_resis) (rule map_eq_imp_length_eq)

lemma run_isTracking:
  assumes "st \<in> set (run e rs s)"
  shows "isTracking st = isTracking s"
proof -
  have "\<forall>st \<in> set (run e rs s). isTracking st = isTracking s"
  proof (rule run_inv1)
    show "isTracking s = isTracking s" ..
  next
    fix r s' st
    assume "isTracking s' = isTracking s" "st \<in> set (attempt e r s')"
    then show "isTracking st = isTracking s" by (simp add: attempt_isTracking)
  next
    fix s'
    assume "isTracking s' = isTracking s"
    then show "isTracking (s'\<lparr>effects := effects s' @ [SetTimeout 1000]\<rparr>) = isTracking s"
      by simp
  qed
  with assms show ?thesis by blast
qed

lemma run_exclusive:
  assumes "st \<in> set (run e rs s)" and "\<forall>x \<in> set (resiList s). exclusive x"
  shows "\<forall>x \<in> set (resiList st). exclusive x"
proof -
  have "\<forall>st \<in> set (run e rs s). \<forall>x \<in> set (resiList st). exclusive x"
  proof (rule run_inv1)
    show "\<forall>x \<in> set (resiList s). exclusive x" by (rule assms(2))
  next
    fix r s' st
    assume "\<forall>x \<in> set (resiList s'). exclusive x" "st \<in> set (attempt e r s')"
    then show "\<forall>x \<in> set (resiList st). exclusive x" by (rule attempt_exclusive [rotated])
  next
    fix s'
    assume "\<forall>x \<in> set (resiList s'). exclusive x"
    then show "\<forall>x \<in> set (resiList (s'\<lparr>effects := effects s' @ [SetTimeout 1000]\<rparr>)). exclusive x"
      by simp
  qed
  with assms(1) show ?thesis by blast
qed

lemma run_akin:
  assumes "st \<in> set (run e rs s)" and "akin (resiList s)"
  shows "akin (resiList st)"
proof -
  have "\<forall>st \<in> set (run e rs s). akin (resiList st)"
  proof (rule run_inv1)
    show "akin (resiList s)" by (rule assms(2))
  next
    fix r s' st
    assume "akin (resiList s')" "st \<in> set (attempt e r s')"
    then show "akin (resiList st)" by (rule attempt_akin [rotated])
  next
    fix s'
    assume "akin (resiList s')"
    then show "akin (resiList (s'\<lparr>effects := effects s' @ [SetTimeout 1000]\<rparr>))" by simp
  qed
  with assms(1) show ?thesis by blast
qed



lemma run_other:
  assumes "st \<in> set (run e rs s)" and "i < length (resiList s)"
    and "resi (resiList s ! i) \<notin> set rs"
  shows "resiList st ! i = resiList s ! i"
proof -
  let ?P = "\<lambda>st. map resi (resiList st) = map resi (resiList s) \<and> resiList st ! i = resiList s ! i"
  have "(\<forall>st \<in> set (run e rs s). ?P st) \<and> ?P (last (s # run e rs s))"
  proof (rule run_inv_on [where R = "set rs"])
    show "?P s" by simp
    show "set rs \<subseteq> set rs" ..
  next
    fix r s' st
    assume r: "r \<in> set rs" and p: "?P s'" and st: "st \<in> set (attempt e r s')"
    from p have len: "length (resiList s') = length (resiList s)"
      by (metis length_map)
    from r assms(3) p have "resi (resiList s' ! i) \<noteq> r" by auto
    with st len assms(2) have "resiList st ! i = resiList s' ! i" by (simp add: attempt_other)
    with p st show "?P st" by (simp add: attempt_resis)
  next
    fix r and s' :: app
    assume r: "r \<in> set rs" and p: "?P s'"
    let ?st = "last (attempt e r s')"
    have st: "?st \<in> set (attempt e r s')" by simp
    from p have len: "length (resiList s') = length (resiList s)"
      by (metis length_map)
    from r assms(3) p have "resi (resiList s' ! i) \<noteq> r" by auto
    with len assms(2) have "resiList ?st ! i = resiList s' ! i"
      by (intro attempt_other [OF st]) simp_all
    with p attempt_resis [OF st] show "?P ?st" by simp
  next
    fix s'
    assume "?P s'"
    then show "?P (s'\<lparr>effects := effects s' @ [SetTimeout 1000]\<rparr>)" by simp
  next
    fix s'
    assume "?P s'"
    then show "?P s'" .
  qed
  with assms(1) show ?thesis by blast
qed

lemma run_final_resolved:
  "i < length (resiList s) \<Longrightarrow> resi (resiList s ! i) \<in> set rs \<Longrightarrow>
   resolved e (resiList (last (s # run e rs s)) ! i)"
proof (induction rs arbitrary: s)
  case Nil
  then show ?case by simp
next
  case (Cons r rs)
  let ?s' = "last (attempt e r s)"
  let ?s'' = "?s'\<lparr>effects := effects ?s' @ [SetTimeout 1000]\<rparr>"
  have in': "?s' \<in> set (attempt e r s)" by simp
  have len': "length (resiList ?s') = length (resiList s)" using in' by (rule attempt_length)
  have resi': "resi (resiList ?s' ! i) = resi (resiList s ! i)"
    using attempt_resis [OF in'] Cons.prems(1) len' by (metis nth_map)
  show ?case
  proof (cases "rs = []")
    case True
    with Cons.prems have "resi (resiList s ! i) = r" by simp
    with Cons.prems(1) have "resolved e (resiList ?s' ! i)" by (rule attempt_last_resolved)
    with True show ?thesis by (simp add: Let_def)
  next
    case False
    then have fin: "last (s # run e (r # rs) s) = last (?s'' # run e rs ?s'')"
      by (simp add: Let_def)
    show ?thesis
    proof (cases "resi (resiList s ! i) \<in> set rs")
      case True
      have "resolved e (resiList (last (?s'' # run e rs ?s'')) ! i)"
        by (rule Cons.IH) (use Cons.prems(1) len' resi' True in simp_all)
      with fin show ?thesis by simp
    next
      case notin: False
      with Cons.prems have eq: "resi (resiList s ! i) = r" by simp
      with Cons.prems(1) have res: "resolved e (resiList ?s' ! i)" by (rule attempt_last_resolved)
      have "resiList (last (?s'' # run e rs ?s'')) ! i = resiList ?s'' ! i"
      proof (cases "run e rs ?s'' = []")
        case True
        then show ?thesis by simp
      next
        case False
        then have "last (?s'' # run e rs ?s'') \<in> set (run e rs ?s'')" by simp
        then show ?thesis
          by (rule run_other) (use Cons.prems(1) len' resi' notin in simp_all)
      qed
      with res fin show ?thesis by simp
    qed
  qed
qed


lemma attempt_timing:
  assumes "API_KEY e = Some k" and "k \<noteq> []"
  shows "\<exists>xs. effects (last (attempt e r s)) = effects s @ xs \<and>
              filter is_timing xs = [Fetch (track_url k r)]"
proof -
  let ?res = "trackResi e (length (effects s)) r"
  have f: "fst ?res = [Fetch (track_url k r)]" using assms by (simp add: trackResi_fst)
  show ?thesis
    by (rule exI [of _ "fst ?res @ (case snd ?res of
          Inl y \<Rightarrow> [ConsoleError (js ''Error tracking '' @ r @ js '':'') y] | Inr d \<Rightarrow> [])"])
       (simp add: attempt_effects_last f split: sum.splits)
qed


lemma run_not_Nil: "rs \<noteq> [] \<Longrightarrow> run e rs s \<noteq> []"
  by (cases rs) (simp_all add: Let_def)

section \<open>Submission as a whole\<close>

lemma loop_run:
  "i \<le> length new \<Longrightarrow> loop e new i s = run e (map resi (drop i new)) s"
proof (induction e new i s rule: loop.induct)
  case (1 e new i s)
  show ?case
  proof (cases "i < length new")
    case False
    then show ?thesis using "1.prems" by (simp add: loop.simps)
  next
    case True
    then have d: "drop i new = new ! i # drop (Suc i) new" by (simp add: Cons_nth_drop_Suc)
    have c: "(int i < int (length new) - 1) \<longleftrightarrow> (map resi (drop (Suc i) new) \<noteq> [])"
      using True by auto
    let ?tr = "attempt e (resi (new ! i)) s"
    let ?pause = "if int i < int (length new) - 1
                  then [(last ?tr)\<lparr>effects := effects (last ?tr) @ [SetTimeout 1000]\<rparr>] else []"
    have ih: "loop e new (Suc i) (last (last ?tr # ?pause)) =
              run e (map resi (drop (Suc i) new)) (last (last ?tr # ?pause))"
      using "1.IH" [OF True refl refl refl] True by simp
    have "loop e new i s = ?tr @ ?pause @ loop e new (Suc i) (last (last ?tr # ?pause))"
      using True by (subst loop.simps) (simp add: Let_def)
    also have "\<dots> = run e (map resi (drop i new)) s"
      unfolding ih d using c by (simp add: Let_def)
    finally show ?thesis .
  qed
qed

lemma processResi_ok:
  assumes "\<not> no_key e" and "resiArray (resiNumbers s) \<noteq> []"
  shows "processResi e s =
     (let s2 = s\<lparr>resiList := map newItem (resiArray (resiNumbers s)), isTracking := True\<rparr>;
          tr = run e (resiArray (resiNumbers s)) s2
      in s\<lparr>resiList := map newItem (resiArray (resiNumbers s))\<rparr> # s2 # tr @
         [(last (s2 # tr))\<lparr>isTracking := False\<rparr>])"
proof -
  have t: "trim (resiNumbers s) \<noteq> []" using assms(2) blank_resiArray by blast
  have m: "map (resi \<circ> newItem) xs = xs" for xs by (induction xs) (simp_all add: newItem_def)
  show ?thesis
    using assms t by (simp add: processResi_def Let_def loop_run m)
qed

lemma processResi_fail:
  assumes "no_key e \<or> resiArray (resiNumbers s) = []"
  shows "\<exists>m. processResi e s = [alert m s]"
proof (cases "trim (resiNumbers s) = []")
  case True
  then have "processResi e s = [alert (js ''Silakan masukkan nomor resi'') s]"
    by (simp add: processResi_def)
  then show ?thesis ..
next
  case False
  show ?thesis
  proof (cases "no_key e")
    case True
    with False have "processResi e s =
      [alert (js ''API Key tidak ditemukan. Silakan cek konfigurasi environment variables.'') s]"
      by (simp add: processResi_def)
    then show ?thesis ..
  next
    case nk: False
    with assms False have "processResi e s = [alert (js ''Tidak ada nomor resi yang valid'') s]"
      by (simp add: processResi_def)
    then show ?thesis ..
  qed
qed

lemma reflects_settled: "reflects res item \<Longrightarrow> settled item"
  by (cases res) (simp_all add: reflects_def settled_def)

lemma resolved_settled: "resolved e item \<Longrightarrow> settled item"
  by (auto simp: resolved_def reflects_settled)

lemma map_resi_newItem: "map (resi \<circ> newItem) xs = xs"
  by (induction xs) (simp_all add: newItem_def)

lemma processResi_states:
  assumes "\<not> no_key e" and "resiArray (resiNumbers s) \<noteq> []"
    and "st \<in> set (processResi e s)"
  shows "st = s\<lparr>resiList := map newItem (resiArray (resiNumbers s))\<rparr>
       \<or> st = s\<lparr>resiList := map newItem (resiArray (resiNumbers s)), isTracking := True\<rparr>
       \<or> st \<in> set (run e (resiArray (resiNumbers s))
                  (s\<lparr>resiList := map newItem (resiArray (resiNumbers s)), isTracking := True\<rparr>))
       \<or> st = (last (run e (resiArray (resiNumbers s))
                  (s\<lparr>resiList := map newItem (resiArray (resiNumbers s)), isTracking := True\<rparr>)))
                \<lparr>isTracking := False\<rparr>"
proof -
  have "run e (resiArray (resiNumbers s))
          (s\<lparr>resiList := map newItem (resiArray (resiNumbers s)), isTracking := True\<rparr>) \<noteq> []"
    using assms(2) by (rule run_not_Nil)
  with assms(3) show ?thesis
    unfolding processResi_ok [OF assms(1,2)] by (auto simp: Let_def)
qed

lemma processResi_last:
  assumes "\<not> no_key e" and "resiArray (resiNumbers s) \<noteq> []"
  shows "last (processResi e s) =
     (last (run e (resiArray (resiNumbers s))
        (s\<lparr>resiList := map newItem (resiArray (resiNumbers s)), isTracking := True\<rparr>)))
     \<lparr>isTracking := False\<rparr>"
  unfolding processResi_ok [OF assms] by (simp add: Let_def run_not_Nil [OF assms(2)])

lemma processResi_hd:
  assumes "\<not> no_key e" and "resiArray (resiNumbers s) \<noteq> []"
  shows "hd (processResi e s) = s\<lparr>resiList := map newItem (resiArray (resiNumbers s))\<rparr>"
  unfolding processResi_ok [OF assms] by (simp add: Let_def)

lemma processResi_resis:
  assumes "\<not> no_key e" and "resiArray (resiNumbers s) \<noteq> []"
    and "st \<in> set (processResi e s)"
  shows "map resi (resiList st) = resiArray (resiNumbers s)"
proof -
  let ?toks = "resiArray (resiNumbers s)"
  let ?s2 = "s\<lparr>resiList := map newItem ?toks, isTracking := True\<rparr>"
  have l: "last (run e ?toks ?s2) \<in> set (run e ?toks ?s2)"
    using run_not_Nil [OF assms(2)] by simp
  have r: "map resi (resiList x) = ?toks" if "x \<in> set (run e ?toks ?s2)" for x
    using run_resis [OF that] by (simp add: map_resi_newItem)
  from processResi_states [OF assms] show ?thesis
    using r r [OF l] by (auto simp: map_resi_newItem)
qed

lemma processResi_final_resolved:
  assumes "\<not> no_key e" and "resiArray (resiNumbers s) \<noteq> []"
  shows "\<forall>x \<in> set (resiList (last (processResi e s))). resolved e x"
proof
  let ?toks = "resiArray (resiNumbers s)"
  let ?s2 = "s\<lparr>resiList := map newItem ?toks, isTracking := True\<rparr>"
  let ?fin = "last (run e ?toks ?s2)"
  fix x assume "x \<in> set (resiList (last (processResi e s)))"
  then have x: "x \<in> set (resiList ?fin)" by (simp add: processResi_last [OF assms])
  have fin: "?fin \<in> set (run e ?toks ?s2)" using run_not_Nil [OF assms(2)] by simp
  have len: "length (resiList ?fin) = length ?toks" using run_length [OF fin] by simp
  from x obtain i where i: "i < length (resiList ?fin)" "x = resiList ?fin ! i"
    by (auto simp: in_set_conv_nth)
  have "resolved e (resiList (last (?s2 # run e ?toks ?s2)) ! i)"
  proof (rule run_final_resolved)
    show "i < length (resiList ?s2)" using i(1) len by simp
    then show "resi (resiList ?s2 ! i) \<in> set ?toks" using i(1) len by (simp add: newItem_def)
  qed
  then show "resolved e x" using i(2) run_not_Nil [OF assms(2)] by simp
qed

lemma processResi_fail_state:
  assumes "no_key e \<or> resiArray (resiNumbers s) = []"
  shows "processResi e s = [last (processResi e s)]
       \<and> resiList (last (processResi e s)) = resiList s
       \<and> isTracking (last (processResi e s)) = isTracking s
       \<and> (\<exists>m. effects (last (processResi e s)) = effects s @ [Alert m])"
proof -
  from processResi_fail [OF assms] obtain m where m: "processResi e s = [alert m s]" ..
  have "effects (last (processResi e s)) = effects s @ [Alert m]"
    by (simp add: m alert_def)
  then have "\<exists>m. effects (last (processResi e s)) = effects s @ [Alert m]" ..
  then show ?thesis by (simp add: m alert_def)
qed

lemma kept_tokens_text_3: "kept_tokens text_3 = [js ''P1'', js ''P2'', js ''P3'']"
  by (simp add: kept_tokens_def text_3_def js_def isSep_def trim_def isWhiteSpace_def)

section \<open>Single refresh\<close>

lemma attempt_hd_item:
  "i < length (resiList s) \<Longrightarrow> resiList (hd (attempt e r s)) ! i = markLoading r (resiList s ! i)"
  by (simp add: attempt_hd)

lemma attempt_no_match:
  assumes "st \<in> set (attempt e r s)" and "\<forall>x \<in> set (resiList s). resi x \<noteq> r"
  shows "resiList st = resiList s"
proof (rule nth_equalityI)
  show "length (resiList st) = length (resiList s)" using assms(1) by (rule attempt_length)
next
  fix i assume "i < length (resiList st)"
  then have i: "i < length (resiList s)" using attempt_length [OF assms(1)] by simp
  then have "resi (resiList s ! i) \<noteq> r" using assms(2) by simp
  with assms(1) i show "resiList st ! i = resiList s ! i" by (rule attempt_other)
qed

lemma trackSingleResi_key: "\<not> no_key e \<Longrightarrow> trackSingleResi e r s = attempt e r s"
  by (simp add: trackSingleResi_def)

lemma trackSingleResi_isTracking:
  "st \<in> set (trackSingleResi e r s) \<Longrightarrow> isTracking st = isTracking s"
  by (cases "no_key e") (auto simp: trackSingleResi_def alert_def attempt_isTracking)

lemma trackSingleResi_exclusive:
  "st \<in> set (trackSingleResi e r s) \<Longrightarrow> \<forall>x \<in> set (resiList s). exclusive x \<Longrightarrow>
   \<forall>x \<in> set (resiList st). exclusive x"
  by (cases "no_key e") (auto simp: trackSingleResi_def alert_def dest: attempt_exclusive)

lemma trackSingleResi_settled:
  assumes "\<forall>x \<in> set (resiList s). settled x"
  shows "\<forall>x \<in> set (resiList (last (trackSingleResi e r s))). settled x"
proof (cases "no_key e")
  case True
  with assms show ?thesis by (simp add: trackSingleResi_def alert_def)
next
  case False
  let ?fin = "last (attempt e r s)"
  have fin: "?fin \<in> set (attempt e r s)" by simp
  have len: "length (resiList ?fin) = length (resiList s)" using fin by (rule attempt_length)
  have "settled x" if "x \<in> set (resiList ?fin)" for x
  proof -
    from that obtain i where i: "i < length (resiList ?fin)" "x = resiList ?fin ! i"
      by (auto simp: in_set_conv_nth)
    show ?thesis
    proof (cases "resi (resiList s ! i) = r")
      case True
      with i len have "reflects (snd (trackResi e (length (effects s)) r)) x"
        by (simp add: attempt_last_reflects)
      then show ?thesis by (rule reflects_settled)
    next
      case False
      with i len have "x = resiList s ! i" using attempt_other [OF fin] by simp
      moreover have "resiList s ! i \<in> set (resiList s)" using i(1) len by simp
      ultimately show ?thesis using assms by blast
    qed
  qed
  with False show ?thesis by (simp add: trackSingleResi_def)
qed

lemma trackSingleResi_matched:
  assumes "\<not> no_key e" and "x \<in> set (resiList (last (trackSingleResi e r s)))" and "resi x = r"
  shows "reflects (snd (trackResi e (length (effects s)) r)) x \<and> \<not> loading x"
proof -
  let ?fin = "last (attempt e r s)"
  have fin: "?fin \<in> set (attempt e r s)" by simp
  have len: "length (resiList ?fin) = length (resiList s)" using fin by (rule attempt_length)
  from assms(1,2) obtain i where i: "i < length (resiList ?fin)" "x = resiList ?fin ! i"
    by (auto simp: in_set_conv_nth trackSingleResi_def)
  have "resi (resiList ?fin ! i) = resi (resiList s ! i)"
    using attempt_resis [OF fin] i(1) len by (metis nth_map)
  with assms(3) i have "resi (resiList s ! i) = r" by simp
  with i len show ?thesis by (simp add: attempt_last_reflects)
qed

lemma processResi_flag:
  assumes "\<not> no_key e" and "resiArray (resiNumbers s) \<noteq> []"
  shows "processResi e s ! 1 =
           s\<lparr>resiList := map newItem (resiArray (resiNumbers s)), isTracking := True\<rparr>"
    and "\<forall>st \<in> set (butlast (tl (processResi e s))). isTracking st"
    and "\<not> isTracking (last (processResi e s))"
proof -
  let ?toks = "resiArray (resiNumbers s)"
  let ?s2 = "s\<lparr>resiList := map newItem ?toks, isTracking := True\<rparr>"
  have tr: "processResi e s = s\<lparr>resiList := map newItem ?toks\<rparr> # ?s2 # run e ?toks ?s2 @
              [(last (?s2 # run e ?toks ?s2))\<lparr>isTracking := False\<rparr>]"
    using processResi_ok [OF assms] by (simp add: Let_def)
  show "processResi e s ! 1 = ?s2" by (simp add: tr)
  have "butlast (tl (processResi e s)) = ?s2 # run e ?toks ?s2"
    by (simp add: tr butlast_append)
  moreover have "isTracking st" if "st \<in> set (run e ?toks ?s2)" for st
    using run_isTracking [OF that] by simp
  ultimately show "\<forall>st \<in> set (butlast (tl (processResi e s))). isTracking st" by simp
  show "\<not> isTracking (last (processResi e s))" by (simp add: tr)
qed

section \<open>Order and timing of a batch\<close>


lemma fetch_timing: "filter is_fetch (filter is_timing xs) = filter is_fetch xs"
proof -
  have "is_fetch x \<Longrightarrow> is_timing x" for x by (cases x) simp_all
  then show ?thesis by (simp add: conj_commute cong: conj_cong)
qed



lemma no_key_iff: "\<not> no_key e \<longleftrightarrow> (\<exists>k. API_KEY e = Some k \<and> k \<noteq> [])"
  by (simp add: no_key_def split: option.splits)





lemma processResi_exclusive:
  assumes "\<forall>x \<in> set (resiList s). exclusive x" and "st \<in> set (processResi e s)"
  shows "\<forall>x \<in> set (resiList st). exclusive x"
proof (cases "no_key e \<or> resiArray (resiNumbers s) = []")
  case True
  from processResi_fail [OF True] obtain m where "processResi e s = [alert m s]" ..
  with assms show ?thesis by (simp add: alert_def)
next
  case False
  then have k: "\<not> no_key e" and t: "resiArray (resiNumbers s) \<noteq> []" by simp_all
  let ?toks = "resiArray (resiNumbers s)"
  let ?s2 = "s\<lparr>resiList := map newItem ?toks, isTracking := True\<rparr>"
  have e2: "\<forall>x \<in> set (resiList ?s2). exclusive x" by (simp add: exclusive_def newItem_def)
  have r: "\<forall>x \<in> set (resiList st'). exclusive x" if "st' \<in> set (run e ?toks ?s2)" for st'
    using that e2 by (rule run_exclusive)
  have l: "last (run e ?toks ?s2) \<in> set (run e ?toks ?s2)" using run_not_Nil [OF t] by simp
  from processResi_states [OF k t assms(2)] show ?thesis
    using e2 r r [OF l] by auto
qed

lemma processResi_akin:
  assumes "\<not> no_key e" and "resiArray (resiNumbers s) \<noteq> []" and "st \<in> set (processResi e s)"
  shows "akin (resiList st)"
proof -
  let ?toks = "resiArray (resiNumbers s)"
  let ?s2 = "s\<lparr>resiList := map newItem ?toks, isTracking := True\<rparr>"
  have t2: "akin (resiList ?s2)" by (auto simp: akin_def alike_def newItem_def)
  have r: "akin (resiList st')" if "st' \<in> set (run e ?toks ?s2)" for st'
    using that t2 by (rule run_akin)
  have l: "last (run e ?toks ?s2) \<in> set (run e ?toks ?s2)"
    using run_not_Nil [OF assms(2)] by simp
  from processResi_states [OF assms] show ?thesis
    using t2 r r [OF l] by auto
qed

lemma processResi_first_mark:
  assumes "\<not> no_key e" and "resiArray (resiNumbers s) \<noteq> []"
    and "i < length (resiArray (resiNumbers s))"
  shows "resiList (processResi e s ! 2) ! i =
         markLoading (hd (resiArray (resiNumbers s))) (newItem (resiArray (resiNumbers s) ! i))"
proof -
  let ?toks = "resiArray (resiNumbers s)"
  let ?s2 = "s\<lparr>resiList := map newItem ?toks, isTracking := True\<rparr>"
  from assms(2) obtain r rs where c: "?toks = r # rs" by (cases ?toks) auto
  have "processResi e s ! 2 = hd (run e ?toks ?s2)"
    using processResi_ok [OF assms(1,2)] run_not_Nil [OF assms(2), of e ?s2]
    by (simp add: Let_def numeral_2_eq_2 hd_conv_nth nth_append)
  also have "\<dots> = hd (attempt e r ?s2)"
    unfolding c by (simp add: Let_def hd_append)
  finally have "resiList (processResi e s ! 2) = map (markLoading r \<circ> newItem) ?toks"
    by (simp add: attempt_hd)
  then have "resiList (processResi e s ! 2) ! i = (markLoading r \<circ> newItem) (?toks ! i)"
    using assms(3) by (simp only: nth_map)
  moreover have "hd ?toks = r" by (simp add: c)
  ultimately show ?thesis by simp
qed

lemma trackSingleResi_fetches:
  assumes "API_KEY e = Some k" and "k \<noteq> []"
  shows "filter is_fetch (drop (length (effects s)) (effects (last (trackSingleResi e r s)))) =
         [Fetch (track_url k r)]"
proof -
  have nk: "\<not> no_key e" using assms by (simp add: no_key_def)
  from attempt_timing [OF assms, of r s] obtain xs where
    xs: "effects (last (attempt e r s)) = effects s @ xs"
        "filter is_timing xs = [Fetch (track_url k r)]" by blast
  have "filter is_fetch xs = filter is_fetch (filter is_timing xs)" by (simp only: fetch_timing)
  with xs show ?thesis by (simp add: trackSingleResi_key [OF nk])
qed

section \<open>Export and lookup outcome\<close>

lemma exportRow_cases:
  "exportRow item = (case exportable item of None \<Rightarrow> errorRow item | Some p \<Rightarrow> dataRow item p)"
  by (simp add: exportRow_def exportable_def split: option.splits)

lemma exportRow_part_000_cases:
  "exportRow_part_000 item =
     (case exportable item of None \<Rightarrow> errorRow_part_000 item | Some p \<Rightarrow> dataRow_part_000 item p)"
  by (simp add: exportRow_part_000_def exportable_def split: option.splits)

lemma or_else_not_Nil: "b \<noteq> [] \<Longrightarrow> or_else a b \<noteq> []"
  by (simp add: or_else_def split: option.splits)

lemma dataRow_not_errorRow: "dataRow x p \<noteq> errorRow x"
proof -
  have "js ''Data tidak ditemukan'' \<noteq> []" by (simp add: js_def)
  then have "or_else (error x) (js ''Data tidak ditemukan'') \<noteq> []" by (rule or_else_not_Nil)
  then show ?thesis by (auto simp: dataRow_def errorRow_def)
qed

lemma dataRow_part_000_not_errorRow: "dataRow_part_000 x p \<noteq> errorRow_part_000 x"
proof -
  have "js ''Data tidak ditemukan'' \<noteq> []" by (simp add: js_def)
  then have "or_else (error x) (js ''Data tidak ditemukan'') \<noteq> []" by (rule or_else_not_Nil)
  then show ?thesis by (auto simp: dataRow_part_000_def errorRow_part_000_def)
qed

lemma trackResi_ok_body:
  assumes "API_KEY e = Some k" and "k \<noteq> []"
    and "fetch e t (track_url k r) = Inr resp" and "ok resp" and "json resp = Inr d"
  shows "snd (trackResi e t r) =
     (if status d \<noteq> 200 \<and> status d \<noteq> 201
      then Inl (ErrorObj (if message d = [] then js ''Gagal mengambil data tracking'' else message d))
      else Inr d)"
  using assms by (simp add: trackResi_def Let_def)

section \<open>Sample runs\<close>

lemmas eval_defs = processResi_def trackSingleResi_def no_key_def env_offline_def env_no_key_def
  env_201_def app0_def app_1_def item_201_def item_offline_def js_def trim_def isWhiteSpace_def
  split_def isSep_def resiArray_def validResi_def startsWith_def newItem_def loop.simps
  attempt_def trackResi_def markLoading_def storeData_def storeError_def stamped_def
  thrown_message_def
  alert_def Let_def

lemma batch_P1_offline:
  "resiList (last (processResi env_offline (app0 (js ''P1'')))) = [item_offline]"
  by (simp add: eval_defs)

lemma refresh_P1_offline:
  "resiList (last (trackSingleResi env_offline (js ''P1'') app_1)) = [item_offline]"
  by (simp add: eval_defs)

lemma env_offline_key: "\<not> no_key env_offline"
  by (simp add: no_key_def env_offline_def js_def)

lemma resiArray_P1: "resiArray (resiNumbers (app0 (js ''P1''))) = [js ''P1'']"
  by (simp add: eval_defs)

lemma batch_P1_second:
  "processResi env_offline (app0 (js ''P1'')) ! 2 \<in>
     set (butlast (tl (processResi env_offline (app0 (js ''P1'')))))"
  by (simp add: eval_defs)

lemma refresh_P1_first:
  "hd (trackSingleResi env_offline (js ''P1'') app_1) \<in>
     set (trackSingleResi env_offline (js ''P1'') app_1)"
  by (simp add: trackSingleResi_def env_offline_key)



lemma resiArray_P1_P1: "resiArray (resiNumbers (app0 (js ''P1,P1''))) = [js ''P1'', js ''P1'']"
  by (simp add: eval_defs)

lemma refresh_P9_last_in:
  "last (trackSingleResi env_offline (js ''P9'') app_1) \<in> set (trackSingleResi env_offline (js ''P9'') app_1)"
  by (simp add: trackSingleResi_def env_offline_key)

lemma exportable_item_offline: "exportable item_offline = None"
  by (simp add: exportable_def item_offline_def)

lemma exportable_item_200: "exportable item_200 = Some payload_1"
  by (simp add: exportable_def item_200_def body_200_def)

lemma refresh_P1_201:
  "item_201 \<in> set (resiList (last (trackSingleResi env_201 (js ''P1'') app_offline)))"
proof -
  have "status body_201 = 201" by (simp add: body_201_def)
  then show ?thesis by (simp add: eval_defs app_offline_def)
qed

lemma refresh_P2_200:
  "item_200 \<in> set (resiList (last (trackSingleResi env_200 (js ''P2'') app_new)))"
proof -
  have "status body_200 = 200" by (simp add: body_200_def)
  then show ?thesis by (simp add: eval_defs app_new_def env_200_def item_200_def)
qed

lemma env_ticking_key: "\<not> no_key env_ticking"
  by (simp add: no_key_def env_ticking_def js_def)

lemma batch_ticking_third:
  "processResi env_ticking (app0 (js ''P1,P1'')) ! 2 \<in> set (processResi env_ticking (app0 (js ''P1,P1'')))"
  by (simp add: eval_defs env_ticking_def decimal.simps)

lemma batch_ticking_last:
  "last (processResi env_ticking (app0 (js ''P1,P1''))) \<in> set (processResi env_ticking (app0 (js ''P1,P1'')))"
  by (simp add: eval_defs env_ticking_def decimal.simps)

lemma errors_of_duplicates:
  "map error (resiList (last (processResi env_ticking (app0 (js ''P1,P1''))))) =
     [Some (js ''offline''), Some (js ''offline'')]"
  by (simp add: eval_defs env_ticking_def decimal.simps)

lemma stamps_of_duplicates:
  "map lastUpdated (resiList (last (processResi env_ticking (app0 (js ''P1,P1''))))) =
     [Some (js ''0''), Some (js ''1'')]"
  by (simp add: eval_defs env_ticking_def decimal.simps)

section \<open>Properties of submission and refresh\<close>

text \<open>
  Claim C1, as the code has it. With the credential absent no record is created whatever the
  text holds: the text \<^verbatim>\<open>P1\<close> keeps one token and the batch stays empty.
\<close>

theorem processResi_no_key_counterexample:
  "kept_tokens (resiNumbers (app0 (js ''P1''))) = [js ''P1'']
   \<and> resiList (last (processResi env_no_key (app0 (js ''P1'')))) = []"
  by (simp add: kept_tokens_def app0_def js_def isSep_def trim_def isWhiteSpace_def
      processResi_def no_key_def env_no_key_def alert_def)

text \<open>
  Claim C1, amended. When the credential is present: the tokens \<^verbatim>\<open>processResi\<close> keeps
  are those of the text cut at every comma and newline, trimmed, non-empty and starting
  with \<^verbatim>\<open>P\<close>. If there is none, the call ends in one state with the batch unchanged and an
  alert. Otherwise the batch is replaced by one fresh record per kept token, in the order of
  the text, and the batch has these identifiers in this order when the call has finished.
\<close>

theorem processResi_records_of_tokens:
  assumes "\<not> no_key e"
  shows "if kept_tokens (resiNumbers s) = []
         then processResi e s = [last (processResi e s)]
            \<and> resiList (last (processResi e s)) = resiList s
            \<and> (\<exists>m. effects (last (processResi e s)) = effects s @ [Alert m])
         else resiList (hd (processResi e s)) = map newItem (kept_tokens (resiNumbers s))
            \<and> map resi (resiList (last (processResi e s))) = kept_tokens (resiNumbers s)"
proof (cases "kept_tokens (resiNumbers s) = []")
  case True
  then have "no_key e \<or> resiArray (resiNumbers s) = []" by (simp add: resiArray_kept_tokens)
  from processResi_fail_state [OF this] True show ?thesis by simp
next
  case False
  then have ne: "resiArray (resiNumbers s) \<noteq> []" by (simp add: resiArray_kept_tokens)
  have l: "last (processResi e s) \<in> set (processResi e s)"
    by (simp add: processResi_ok [OF assms ne] Let_def)
  show ?thesis
    using False processResi_hd [OF assms ne] processResi_resis [OF assms ne l]
    by (simp add: resiArray_kept_tokens)
qed

theorem processResi_records_of_tokens_witness:
  "\<not> no_key env_offline
   \<and> resiList (hd (processResi env_offline (app0 text_3))) =
       [newItem (js ''P1''), newItem (js ''P2''), newItem (js ''P3'')]
   \<and> map resi (resiList (last (processResi env_offline (app0 text_3)))) =
       [js ''P1'', js ''P2'', js ''P3'']"
proof -
  have h: "\<not> no_key env_offline" by (simp add: no_key_def env_offline_def js_def)
  from processResi_records_of_tokens [OF h, of "app0 text_3"] h show ?thesis
    by (simp add: app0_def kept_tokens_text_3)
qed

text \<open>
  Claim C4. When the credential is absent (undefined or empty) or the text yields no valid
  token, \<^verbatim>\<open>processResi\<close> goes through one state only, in which the batch and the
  batch-in-progress flag are as before and the only new effect is one alert: no record is
  created or changed and no request is sent.
\<close>

theorem processResi_precondition_failure:
  assumes "no_key e \<or> resiArray (resiNumbers s) = []"
  shows "processResi e s = [last (processResi e s)]
       \<and> resiList (last (processResi e s)) = resiList s
       \<and> isTracking (last (processResi e s)) = isTracking s
       \<and> (\<exists>m. effects (last (processResi e s)) = effects s @ [Alert m])"
  using assms by (rule processResi_fail_state)

theorem processResi_precondition_failure_witness:
  "no_key env_no_key
   \<and> processResi env_no_key (app0 (js ''P1'')) = [last (processResi env_no_key (app0 (js ''P1'')))]
   \<and> resiList (last (processResi env_no_key (app0 (js ''P1'')))) = []
   \<and> isTracking (last (processResi env_no_key (app0 (js ''P1'')))) = False"
proof -
  have h: "no_key env_no_key" by (simp add: no_key_def env_no_key_def)
  then have "no_key env_no_key \<or> resiArray (resiNumbers (app0 (js ''P1''))) = []" ..
  from processResi_precondition_failure [OF this] h show ?thesis by (simp add: app0_def)
qed

text \<open>
  Claim C2. When \<^verbatim>\<open>processResi\<close> has processed a batch, every record of the batch has
  exactly one of payload and error set, and it shows the outcome of a lookup of its own
  identifier: the payload and no error after a success, no payload and the message after a
  failure. When \<^verbatim>\<open>trackSingleResi\<close> has finished, every record with the refreshed
  identifier shows the outcome of that lookup in the same way, and if every record had
  exactly one of the two set before, every record has so afterwards.
\<close>

theorem lookups_settle_records:
  "(\<not> no_key e \<and> resiArray (resiNumbers s) \<noteq> [] \<longrightarrow>
      (\<forall>x \<in> set (resiList (last (processResi e s))).
         settled x \<and> (\<exists>t. reflects (snd (trackResi e t (resi x))) x)))
   \<and> (\<not> no_key e \<longrightarrow>
      (\<forall>x \<in> set (resiList (last (trackSingleResi e r s'))).
         resi x = r \<longrightarrow> settled x \<and> reflects (snd (trackResi e (length (effects s')) r)) x))
   \<and> ((\<forall>x \<in> set (resiList s'). settled x) \<longrightarrow>
      (\<forall>x \<in> set (resiList (last (trackSingleResi e r s'))). settled x))"
proof (intro conjI impI ballI)
  fix x
  assume "\<not> no_key e \<and> resiArray (resiNumbers s) \<noteq> []"
    and "x \<in> set (resiList (last (processResi e s)))"
  then have r: "resolved e x" using processResi_final_resolved by blast
  then show "settled x" by (rule resolved_settled)
  from r show "\<exists>t. reflects (snd (trackResi e t (resi x))) x" by (simp add: resolved_def)
next
  fix x
  assume "\<not> no_key e" "x \<in> set (resiList (last (trackSingleResi e r s')))" "resi x = r"
  then have "reflects (snd (trackResi e (length (effects s')) r)) x \<and> \<not> loading x"
    by (rule trackSingleResi_matched)
  then show "reflects (snd (trackResi e (length (effects s')) r)) x" ..
  then show "settled x" by (rule reflects_settled)
next
  fix x
  assume "\<forall>x \<in> set (resiList s'). settled x"
    and "x \<in> set (resiList (last (trackSingleResi e r s')))"
  then show "settled x" using trackSingleResi_settled by blast
qed

theorem lookups_settle_records_witness:
  "\<not> no_key env_offline \<and> resiArray (resiNumbers (app0 (js ''P1''))) \<noteq> []
   \<and> settled item_201
   \<and> item_offline \<in> set (resiList (last (processResi env_offline (app0 (js ''P1'')))))
   \<and> item_offline \<in> set (resiList (last (trackSingleResi env_offline (js ''P1'') app_1)))
   \<and> resi item_offline = js ''P1''
   \<and> settled item_offline
   \<and> reflects (snd (trackResi env_offline (length (effects app_1)) (js ''P1''))) item_offline"
proof -
  have h1: "\<not> no_key env_offline \<and> resiArray (resiNumbers (app0 (js ''P1''))) \<noteq> []"
    by (simp add: env_offline_key resiArray_P1)
  have h2: "\<forall>x \<in> set (resiList app_1). settled x"
    by (simp add: app_1_def item_201_def settled_def)
  have m1: "item_offline \<in> set (resiList (last (processResi env_offline (app0 (js ''P1'')))))"
    by (simp add: batch_P1_offline)
  have m2: "item_offline \<in> set (resiList (last (trackSingleResi env_offline (js ''P1'') app_1)))"
    by (simp add: refresh_P1_offline)
  have r: "resi item_offline = js ''P1''" by (simp add: item_offline_def)
  from lookups_settle_records [of env_offline "app0 (js ''P1'')" "js ''P1''" app_1] h1 h2 m1 m2 r
  show ?thesis by (simp add: app_1_def)
qed

text \<open>
  Claim C7. When \<^verbatim>\<open>processResi\<close> passes its checks, the flag \<^verbatim>\<open>isTracking\<close> is true in
  the second state, before any effect, and in every later state but the last; it is false
  in the last state, in which every record is resolved. No state of \<^verbatim>\<open>trackSingleResi\<close>
  changes the flag.
\<close>

theorem isTracking_spans_the_batch:
  "(\<not> no_key e \<and> resiArray (resiNumbers s) \<noteq> [] \<longrightarrow>
       isTracking (processResi e s ! 1)
     \<and> effects (processResi e s ! 1) = effects s
     \<and> (\<forall>st \<in> set (butlast (tl (processResi e s))). isTracking st)
     \<and> \<not> isTracking (last (processResi e s))
     \<and> (\<forall>x \<in> set (resiList (last (processResi e s))). resolved e x))
   \<and> (\<forall>st \<in> set (trackSingleResi e r s'). isTracking st = isTracking s')"
proof (intro conjI impI)
  assume a: "\<not> no_key e \<and> resiArray (resiNumbers s) \<noteq> []"
  then have k: "\<not> no_key e" and t: "resiArray (resiNumbers s) \<noteq> []" by simp_all
  show "isTracking (processResi e s ! 1)" unfolding processResi_flag(1) [OF k t] by simp
  show "effects (processResi e s ! 1) = effects s" unfolding processResi_flag(1) [OF k t] by simp
  show "\<forall>st \<in> set (butlast (tl (processResi e s))). isTracking st"
    using k t by (rule processResi_flag(2))
  show "\<not> isTracking (last (processResi e s))" using k t by (rule processResi_flag(3))
  show "\<forall>x \<in> set (resiList (last (processResi e s))). resolved e x"
    using k t by (rule processResi_final_resolved)
next
  show "\<forall>st \<in> set (trackSingleResi e r s'). isTracking st = isTracking s'"
    using trackSingleResi_isTracking by blast
qed

theorem isTracking_spans_the_batch_witness:
  "\<not> no_key env_offline \<and> resiArray (resiNumbers (app0 (js ''P1''))) \<noteq> []
   \<and> isTracking (processResi env_offline (app0 (js ''P1'')) ! 1)
   \<and> isTracking (processResi env_offline (app0 (js ''P1'')) ! 2)
   \<and> \<not> isTracking (last (processResi env_offline (app0 (js ''P1''))))
   \<and> isTracking (hd (trackSingleResi env_offline (js ''P1'') app_1)) = isTracking app_1"
proof -
  have h: "\<not> no_key env_offline \<and> resiArray (resiNumbers (app0 (js ''P1''))) \<noteq> []"
    by (simp add: env_offline_key resiArray_P1)
  from isTracking_spans_the_batch [of env_offline "app0 (js ''P1'')" "js ''P1''" app_1]
    h batch_P1_second refresh_P1_first
  show ?thesis by blast
qed




text \<open>
  Claim C5. In the batch loop the first mark sets the in-progress flag of exactly the
  records whose identifier is the first token. In every state of \<^verbatim>\<open>processResi\<close> the
  records with one identifier agree in payload, in-progress flag and error, and all or
  none of them carry a time stamp: a result or an error stored for one of them is stored
  for all (the stamp is read once per record and may differ). When the loop has finished
  every record is at rest and shows the outcome of a lookup of its identifier. In
  \<^verbatim>\<open>trackSingleResi\<close> every record with the given identifier is marked in progress with its
  error cleared and ends at rest showing the outcome of the lookup; every other record is
  the same in every state.
\<close>

theorem updates_reach_every_match:
  "(\<not> no_key e \<and> resiArray (resiNumbers s) \<noteq> [] \<longrightarrow>
       (\<forall>i < length (resiArray (resiNumbers s)).
          loading (resiList (processResi e s ! 2) ! i) =
            (resiArray (resiNumbers s) ! i = hd (resiArray (resiNumbers s))))
     \<and> (\<forall>st \<in> set (processResi e s). akin (resiList st))
     \<and> (\<forall>x \<in> set (resiList (last (processResi e s))). resolved e x))
   \<and> (\<not> no_key e \<longrightarrow>
       (\<forall>i < length (resiList s').
          if resi (resiList s' ! i) = r
          then resiList (hd (trackSingleResi e r s')) ! i =
                 (resiList s' ! i)\<lparr>loading := True, error := None\<rparr>
             \<and> \<not> loading (resiList (last (trackSingleResi e r s')) ! i)
             \<and> reflects (snd (trackResi e (length (effects s')) r))
                 (resiList (last (trackSingleResi e r s')) ! i)
          else (\<forall>st \<in> set (trackSingleResi e r s'). resiList st ! i = resiList s' ! i)))"
proof (intro conjI impI allI)
  fix i
  assume a: "\<not> no_key e \<and> resiArray (resiNumbers s) \<noteq> []"
    and i: "i < length (resiArray (resiNumbers s))"
  then show "loading (resiList (processResi e s ! 2) ! i) =
            (resiArray (resiNumbers s) ! i = hd (resiArray (resiNumbers s)))"
    by (simp add: processResi_first_mark markLoading_def newItem_def)
next
  assume "\<not> no_key e \<and> resiArray (resiNumbers s) \<noteq> []"
  then show "\<forall>st \<in> set (processResi e s). akin (resiList st)"
    using processResi_akin by blast
next
  assume "\<not> no_key e \<and> resiArray (resiNumbers s) \<noteq> []"
  then show "\<forall>x \<in> set (resiList (last (processResi e s))). resolved e x"
    using processResi_final_resolved by blast
next
  fix i
  assume k: "\<not> no_key e" and i: "i < length (resiList s')"
  show "if resi (resiList s' ! i) = r
          then resiList (hd (trackSingleResi e r s')) ! i =
                 (resiList s' ! i)\<lparr>loading := True, error := None\<rparr>
             \<and> \<not> loading (resiList (last (trackSingleResi e r s')) ! i)
             \<and> reflects (snd (trackResi e (length (effects s')) r))
                 (resiList (last (trackSingleResi e r s')) ! i)
          else (\<forall>st \<in> set (trackSingleResi e r s'). resiList st ! i = resiList s' ! i)"
  proof (cases "resi (resiList s' ! i) = r")
    case True
    with i have "resiList (hd (attempt e r s')) ! i = (resiList s' ! i)\<lparr>loading := True, error := None\<rparr>"
      by (simp add: attempt_hd_item markLoading_def)
    with True i k show ?thesis
      by (simp add: trackSingleResi_key attempt_last_reflects)
  next
    case False
    with i have "\<forall>st \<in> set (attempt e r s'). resiList st ! i = resiList s' ! i"
      using attempt_other by blast
    with False k show ?thesis by (simp add: trackSingleResi_key)
  qed
qed

theorem updates_reach_every_match_witness:
  "\<not> no_key env_ticking \<and> resiArray (resiNumbers (app0 (js ''P1,P1''))) \<noteq> []
   \<and> loading (resiList (processResi env_ticking (app0 (js ''P1,P1'')) ! 2) ! 0)
   \<and> loading (resiList (processResi env_ticking (app0 (js ''P1,P1'')) ! 2) ! 1)
   \<and> akin (resiList (processResi env_ticking (app0 (js ''P1,P1'')) ! 2))
   \<and> akin (resiList (last (processResi env_ticking (app0 (js ''P1,P1'')))))
   \<and> map error (resiList (last (processResi env_ticking (app0 (js ''P1,P1''))))) =
       [Some (js ''offline''), Some (js ''offline'')]
   \<and> map lastUpdated (resiList (last (processResi env_ticking (app0 (js ''P1,P1''))))) =
       [Some (js ''0''), Some (js ''1'')]
   \<and> resiList (hd (trackSingleResi env_offline (js ''P1'') app_1)) ! 0 =
       item_201\<lparr>loading := True, error := None\<rparr>
   \<and> \<not> loading (resiList (last (trackSingleResi env_offline (js ''P1'') app_1)) ! 0)"
proof -
  have h: "\<not> no_key env_ticking \<and> resiArray (resiNumbers (app0 (js ''P1,P1''))) \<noteq> []"
    by (simp add: env_ticking_key resiArray_P1_P1)
  have r: "resi (resiList app_1 ! 0) = js ''P1''" by (simp add: app_1_def item_201_def)
  have l: "(0::nat) < length (resiList app_1)" by (simp add: app_1_def)
  have x: "resiList app_1 ! 0 = item_201" by (simp add: app_1_def)
  from updates_reach_every_match [of env_ticking "app0 (js ''P1,P1'')" app_1 "js ''P1''"]
    h batch_ticking_third batch_ticking_last
  have a: "loading (resiList (processResi env_ticking (app0 (js ''P1,P1'')) ! 2) ! 0)
   \<and> loading (resiList (processResi env_ticking (app0 (js ''P1,P1'')) ! 2) ! 1)
   \<and> akin (resiList (processResi env_ticking (app0 (js ''P1,P1'')) ! 2))
   \<and> akin (resiList (last (processResi env_ticking (app0 (js ''P1,P1'')))))"
    by (simp add: resiArray_P1_P1)
  from updates_reach_every_match [of env_offline "app0 (js ''P1,P1'')" app_1 "js ''P1''"]
    env_offline_key r l x
  have b: "resiList (hd (trackSingleResi env_offline (js ''P1'') app_1)) ! 0 =
       item_201\<lparr>loading := True, error := None\<rparr>
   \<and> \<not> loading (resiList (last (trackSingleResi env_offline (js ''P1'') app_1)) ! 0)"
    by simp
  from a b h errors_of_duplicates stamps_of_duplicates show ?thesis by blast
qed

text \<open>
  Claim C6, as the code has it. The mark at the start of an attempt clears the error only:
  a record holding a payload still holds it when it is marked in progress.
\<close>

theorem attempt_keeps_payload_counterexample:
  "data (hd (resiList (hd (trackSingleResi env_offline (js ''P1'') app_1)))) = Some body_201"
  by (simp add: eval_defs)

text \<open>
  Claim C6, amended. If no record has both payload and error set, none has in any state of
  \<^verbatim>\<open>processResi\<close> or \<^verbatim>\<open>trackSingleResi\<close>. A lookup attempt, which is the loop body of the
  one and, with a credential, the whole of the other, starts by marking the matching
  records in progress and clearing their error; it keeps the payload of every record; when
  it has resolved, every matching record has exactly one of the two set.
\<close>

theorem payload_error_never_both:
  "((\<forall>x \<in> set (resiList s). exclusive x) \<longrightarrow>
       (\<forall>st \<in> set (processResi e s). \<forall>x \<in> set (resiList st). exclusive x)
     \<and> (\<forall>st \<in> set (trackSingleResi e r s). \<forall>x \<in> set (resiList st). exclusive x))
   \<and> (\<forall>i < length (resiList s).
         data (resiList (hd (attempt e r s)) ! i) = data (resiList s ! i)
       \<and> (resi (resiList s ! i) = r \<longrightarrow>
            loading (resiList (hd (attempt e r s)) ! i)
          \<and> error (resiList (hd (attempt e r s)) ! i) = None
          \<and> settled (resiList (last (attempt e r s)) ! i)))
   \<and> (\<not> no_key e \<longrightarrow> trackSingleResi e r s = attempt e r s)"
proof (intro conjI impI allI ballI)
  fix st x
  assume "\<forall>x \<in> set (resiList s). exclusive x" "st \<in> set (processResi e s)"
    "x \<in> set (resiList st)"
  then show "exclusive x" using processResi_exclusive by blast
next
  fix st x
  assume "\<forall>x \<in> set (resiList s). exclusive x" "st \<in> set (trackSingleResi e r s)"
    "x \<in> set (resiList st)"
  then show "exclusive x" using trackSingleResi_exclusive by blast
next
  fix i assume "i < length (resiList s)"
  then show "data (resiList (hd (attempt e r s)) ! i) = data (resiList s ! i)"
    by (simp add: attempt_hd markLoading_def)
next
  fix i assume i: "i < length (resiList s)" and m: "resi (resiList s ! i) = r"
  then show "loading (resiList (hd (attempt e r s)) ! i)"
    by (simp add: attempt_hd markLoading_def)
  from i m show "error (resiList (hd (attempt e r s)) ! i) = None"
    by (simp add: attempt_hd markLoading_def)
  from i m have "reflects (snd (trackResi e (length (effects s)) r))
                   (resiList (last (attempt e r s)) ! i)"
    by (simp add: attempt_last_reflects)
  then show "settled (resiList (last (attempt e r s)) ! i)" by (rule reflects_settled)
next
  assume "\<not> no_key e"
  then show "trackSingleResi e r s = attempt e r s" by (rule trackSingleResi_key)
qed

theorem payload_error_never_both_witness:
  "exclusive item_201 \<and> \<not> no_key env_offline
   \<and> exclusive (hd (resiList (hd (trackSingleResi env_offline (js ''P1'') app_1))))
   \<and> data (resiList (hd (attempt env_offline (js ''P1'') app_1)) ! 0) = Some body_201
   \<and> error (resiList (hd (attempt env_offline (js ''P1'') app_1)) ! 0) = None
   \<and> settled (resiList (last (attempt env_offline (js ''P1'') app_1)) ! 0)"
proof -
  have e: "\<forall>x \<in> set (resiList app_1). exclusive x"
    by (simp add: app_1_def item_201_def exclusive_def)
  have m: "hd (resiList (hd (trackSingleResi env_offline (js ''P1'') app_1))) \<in>
           set (resiList (hd (trackSingleResi env_offline (js ''P1'') app_1)))"
    by (simp add: trackSingleResi_def env_offline_key attempt_hd app_1_def)
  have r: "resi (resiList app_1 ! 0) = js ''P1''" by (simp add: app_1_def item_201_def)
  have l: "(0::nat) < length (resiList app_1)" by (simp add: app_1_def)
  have d: "data (resiList app_1 ! 0) = Some body_201" by (simp add: app_1_def item_201_def)
  have x: "exclusive item_201" by (simp add: item_201_def exclusive_def)
  from payload_error_never_both [of app_1 env_offline "js ''P1''"] e m r l d x
    refresh_P1_first env_offline_key
  show ?thesis by metis
qed

text \<open>
  Claim C10, as the code has it. With the credential absent \<^verbatim>\<open>trackSingleResi\<close> alerts and
  returns: it sends no request.
\<close>

theorem refresh_no_key_counterexample:
  "filter is_fetch (effects (last (trackSingleResi env_no_key (js ''P9'') app_1))) = []"
  by (simp add: eval_defs)

text \<open>
  Claim C10, amended. When the credential is present and no record has the identifier,
  \<^verbatim>\<open>trackSingleResi\<close> sends exactly one request, for that identifier, and the records are
  the same in every state.
\<close>

theorem refresh_without_match:
  assumes "API_KEY e = Some k" and "k \<noteq> []" and "\<forall>x \<in> set (resiList s). resi x \<noteq> r"
  shows "(\<forall>st \<in> set (trackSingleResi e r s). resiList st = resiList s)
       \<and> filter is_fetch (drop (length (effects s)) (effects (last (trackSingleResi e r s)))) =
           [Fetch (track_url k r)]"
proof
  have nk: "\<not> no_key e" using assms(1,2) by (simp add: no_key_def)
  show "\<forall>st \<in> set (trackSingleResi e r s). resiList st = resiList s"
    using attempt_no_match [OF _ assms(3)] by (simp add: trackSingleResi_key [OF nk])
  show "filter is_fetch (drop (length (effects s)) (effects (last (trackSingleResi e r s)))) =
           [Fetch (track_url k r)]"
    using assms(1,2) by (rule trackSingleResi_fetches)
qed

theorem refresh_without_match_witness:
  "API_KEY env_offline = Some (js ''k'') \<and> js ''k'' \<noteq> [] \<and> resi item_201 \<noteq> js ''P9''
   \<and> resiList (last (trackSingleResi env_offline (js ''P9'') app_1)) = [item_201]
   \<and> filter is_fetch (effects (last (trackSingleResi env_offline (js ''P9'') app_1))) =
       [Fetch (track_url (js ''k'') (js ''P9''))]"
proof -
  have k: "API_KEY env_offline = Some (js ''k'')" by (simp add: env_offline_def)
  have n: "js ''k'' \<noteq> []" by (simp add: js_def)
  have d: "resi item_201 \<noteq> js ''P9''" by (simp add: item_201_def js_def)
  then have u: "\<forall>x \<in> set (resiList app_1). resi x \<noteq> js ''P9''" by (simp add: app_1_def)
  have e: "effects app_1 = []" "resiList app_1 = [item_201]" by (simp_all add: app_1_def)
  from refresh_without_match [OF k n u] refresh_P9_last_in k n d
  show ?thesis by (simp add: e)
qed

section \<open>Properties of the export and of the status code\<close>

text \<open>
  Claim C8, as the code has it. A row of the export in
  \<^verbatim>\<open>src/components/PosTrackingSystem.tsx\<close> has four cells, for a delivered parcel too:
  identifier, receiver, latest history description and error message. It carries no
  status, service, date or shipper.
\<close>

theorem export_four_cells_counterexample:
  "map fst (exportToExcel [item_offline, item_200] ! 1) =
     [js ''No Resi'', js ''Penerima'', js ''Status Terakhir'', js ''Pesan Error'']"
  by (simp add: exportToExcel_def exportRow_def dataRow_def item_200_def body_200_def)

text \<open>
  Claim C8, amended. Both exports give one row per record, in the order of the batch, and
  no row for the empty batch. In \<^verbatim>\<open>src/unnamed/part_000\<close> a row carries identifier, status,
  service, date, shipper, receiver, latest history description and error message; in
  \<^verbatim>\<open>src/components/PosTrackingSystem.tsx\<close> it carries identifier, receiver, latest history
  description and error message. A record with no body, no inner data or a status other
  than 200 gets \<^verbatim>\<open>ERROR\<close> as status (where there is one), dashes, and as error message
  the stored error if it is a non-empty string and the text \<^verbatim>\<open>Data tidak ditemukan\<close>
  otherwise. Any other record gets the cells of its payload, the description of the first
  history event or a dash, and an empty error message.
\<close>

theorem export_rows:
  "length (exportToExcel items) = length items
   \<and> length (exportToExcel_part_000 items) = length items
   \<and> exportToExcel [] = [] \<and> exportToExcel_part_000 [] = []
   \<and> (\<forall>i < length items.
        (exportable (items ! i) = None \<longrightarrow>
           exportToExcel_part_000 items ! i =
             [(js ''No Resi'', resi (items ! i)),
              (js ''Status'', js ''ERROR''),
              (js ''Layanan'', js ''-''),
              (js ''Tanggal'', js ''-''),
              (js ''Pengirim'', js ''-''),
              (js ''Penerima'', js ''-''),
              (js ''Status Terakhir'', js ''-''),
              (js ''Pesan Error'', or_else (error (items ! i)) (js ''Data tidak ditemukan''))]
         \<and> exportToExcel items ! i =
             [(js ''No Resi'', resi (items ! i)),
              (js ''Penerima'', js ''-''),
              (js ''Status Terakhir'', js ''-''),
              (js ''Pesan Error'', or_else (error (items ! i)) (js ''Data tidak ditemukan''))])
      \<and> (\<forall>p. exportable (items ! i) = Some p \<longrightarrow>
           exportToExcel_part_000 items ! i =
             [(js ''No Resi'', resi (items ! i)),
              (js ''Status'', summary_status (summary p)),
              (js ''Layanan'', service (summary p)),
              (js ''Tanggal'', summary_date (summary p)),
              (js ''Pengirim'', shipper (detail p)),
              (js ''Penerima'', receiver (detail p)),
              (js ''Status Terakhir'',
               (case latestHistory p of Some h \<Rightarrow> desc h | None \<Rightarrow> js ''-'')),
              (js ''Pesan Error'', [])]
         \<and> exportToExcel items ! i =
             [(js ''No Resi'', resi (items ! i)),
              (js ''Penerima'', receiver (detail p)),
              (js ''Status Terakhir'',
               (case latestHistory p of Some h \<Rightarrow> desc h | None \<Rightarrow> js ''-'')),
              (js ''Pesan Error'', [])]))"
proof (intro conjI allI impI)
  show "length (exportToExcel items) = length items" by (simp add: exportToExcel_def)
  show "length (exportToExcel_part_000 items) = length items"
    by (simp add: exportToExcel_part_000_def)
  show "exportToExcel [] = []" by (simp add: exportToExcel_def)
  show "exportToExcel_part_000 [] = []" by (simp add: exportToExcel_part_000_def)
next
  fix i assume "i < length items" "exportable (items ! i) = None"
  then show "exportToExcel_part_000 items ! i =
             [(js ''No Resi'', resi (items ! i)),
              (js ''Status'', js ''ERROR''),
              (js ''Layanan'', js ''-''),
              (js ''Tanggal'', js ''-''),
              (js ''Pengirim'', js ''-''),
              (js ''Penerima'', js ''-''),
              (js ''Status Terakhir'', js ''-''),
              (js ''Pesan Error'', or_else (error (items ! i)) (js ''Data tidak ditemukan''))]"
    by (simp add: exportToExcel_part_000_def exportRow_part_000_cases errorRow_part_000_def)
next
  fix i assume "i < length items" "exportable (items ! i) = None"
  then show "exportToExcel items ! i =
             [(js ''No Resi'', resi (items ! i)),
              (js ''Penerima'', js ''-''),
              (js ''Status Terakhir'', js ''-''),
              (js ''Pesan Error'', or_else (error (items ! i)) (js ''Data tidak ditemukan''))]"
    by (simp add: exportToExcel_def exportRow_cases errorRow_def)
next
  fix i p assume "i < length items" "exportable (items ! i) = Some p"
  then show "exportToExcel_part_000 items ! i =
             [(js ''No Resi'', resi (items ! i)),
              (js ''Status'', summary_status (summary p)),
              (js ''Layanan'', service (summary p)),
              (js ''Tanggal'', summary_date (summary p)),
              (js ''Pengirim'', shipper (detail p)),
              (js ''Penerima'', receiver (detail p)),
              (js ''Status Terakhir'',
               (case latestHistory p of Some h \<Rightarrow> desc h | None \<Rightarrow> js ''-'')),
              (js ''Pesan Error'', [])]"
    by (simp add: exportToExcel_part_000_def exportRow_part_000_cases dataRow_part_000_def)
next
  fix i p assume "i < length items" "exportable (items ! i) = Some p"
  then show "exportToExcel items ! i =
             [(js ''No Resi'', resi (items ! i)),
              (js ''Penerima'', receiver (detail p)),
              (js ''Status Terakhir'',
               (case latestHistory p of Some h \<Rightarrow> desc h | None \<Rightarrow> js ''-'')),
              (js ''Pesan Error'', [])]"
    by (simp add: exportToExcel_def exportRow_cases dataRow_def)
qed

theorem export_rows_witness:
  "exportable item_offline = None \<and> exportable item_200 = Some payload_1
   \<and> length (exportToExcel_part_000 [item_offline, item_200]) = 2
   \<and> map snd (exportToExcel_part_000 [item_offline, item_200] ! 0) =
       [js ''P1'', js ''ERROR'', js ''-'', js ''-'', js ''-'', js ''-'', js ''-'', js ''offline'']
   \<and> map snd (exportToExcel_part_000 [item_offline, item_200] ! 1) =
       [js ''P2'', js ''DELIVERED'', js ''REG'', js ''D2'', js ''S'', js ''R'', js ''done'', []]
   \<and> map snd (exportToExcel [item_offline, item_200] ! 0) =
       [js ''P1'', js ''-'', js ''-'', js ''offline'']
   \<and> map snd (exportToExcel [item_offline, item_200] ! 1) =
       [js ''P2'', js ''R'', js ''done'', []]"
proof -
  let ?items = "[item_offline, item_200]"
  note t = export_rows [of ?items]
  from t have len: "length (exportToExcel_part_000 ?items) = 2" by simp
  from t have a: "\<forall>i < length ?items.
        (exportable (?items ! i) = None \<longrightarrow>
           exportToExcel_part_000 ?items ! i =
             [(js ''No Resi'', resi (?items ! i)),
              (js ''Status'', js ''ERROR''),
              (js ''Layanan'', js ''-''),
              (js ''Tanggal'', js ''-''),
              (js ''Pengirim'', js ''-''),
              (js ''Penerima'', js ''-''),
              (js ''Status Terakhir'', js ''-''),
              (js ''Pesan Error'', or_else (error (?items ! i)) (js ''Data tidak ditemukan''))]
         \<and> exportToExcel ?items ! i =
             [(js ''No Resi'', resi (?items ! i)),
              (js ''Penerima'', js ''-''),
              (js ''Status Terakhir'', js ''-''),
              (js ''Pesan Error'', or_else (error (?items ! i)) (js ''Data tidak ditemukan''))])
      \<and> (\<forall>p. exportable (?items ! i) = Some p \<longrightarrow>
           exportToExcel_part_000 ?items ! i =
             [(js ''No Resi'', resi (?items ! i)),
              (js ''Status'', summary_status (summary p)),
              (js ''Layanan'', service (summary p)),
              (js ''Tanggal'', summary_date (summary p)),
              (js ''Pengirim'', shipper (detail p)),
              (js ''Penerima'', receiver (detail p)),
              (js ''Status Terakhir'',
               (case latestHistory p of Some h \<Rightarrow> desc h | None \<Rightarrow> js ''-'')),
              (js ''Pesan Error'', [])]
         \<and> exportToExcel ?items ! i =
             [(js ''No Resi'', resi (?items ! i)),
              (js ''Penerima'', receiver (detail p)),
              (js ''Status Terakhir'',
               (case latestHistory p of Some h \<Rightarrow> desc h | None \<Rightarrow> js ''-'')),
              (js ''Pesan Error'', [])])"
    by blast
  from a [rule_format, of 0] exportable_item_offline
  have r0: "map snd (exportToExcel_part_000 ?items ! 0) =
       [js ''P1'', js ''ERROR'', js ''-'', js ''-'', js ''-'', js ''-'', js ''-'', js ''offline'']"
    and q0: "map snd (exportToExcel ?items ! 0) = [js ''P1'', js ''-'', js ''-'', js ''offline'']"
    by (simp_all add: item_offline_def or_else_def js_def)
  from a [rule_format, of 1] exportable_item_200
  have r1: "map snd (exportToExcel_part_000 ?items ! 1) =
       [js ''P2'', js ''DELIVERED'', js ''REG'', js ''D2'', js ''S'', js ''R'', js ''done'', []]"
    and q1: "map snd (exportToExcel ?items ! 1) = [js ''P2'', js ''R'', js ''done'', []]"
    by (simp_all add: item_200_def payload_1_def latestHistory_def)
  from len r0 q0 r1 q1 exportable_item_offline exportable_item_200 show ?thesis by simp
qed

text \<open>
  Claim C9. Let the request of \<^verbatim>\<open>trackSingleResi\<close> be answered with an ok response whose
  body \<open>d\<close> parses. A record with the refreshed identifier then holds \<open>d\<close> with no error
  exactly when the status of \<open>d\<close> is 200 or 201. With status 200 the record counts as
  successful and not as failed, shows no not-found panel, and, when \<open>d\<close> has its inner
  data, both exports give it the data row, which is not the error row. With status 201
  the record holds \<open>d\<close> and no error, yet it is not counted as successful, it is counted
  as failed, it shows the not-found panel and not the detail panel, and both exports give
  it the error row with the default message.
\<close>

theorem status_201_success_counted_as_failure:
  assumes "API_KEY e = Some k" and "k \<noteq> []"
    and "fetch e (length (effects s)) (track_url k r) = Inr resp"
    and "ok resp" and "json resp = Inr d"
    and "x \<in> set (resiList (last (trackSingleResi e r s)))" and "resi x = r"
  shows "((data x = Some d \<and> error x = None) \<longleftrightarrow> (status d = 200 \<or> status d = 201))
       \<and> (status d = 200 \<longrightarrow>
            successfulTrackings [x] = 1 \<and> failedTrackings [x] = 0
          \<and> \<not> showNotFound x
          \<and> (\<forall>p. payload d = Some p \<longrightarrow>
                 exportRow x = dataRow x p \<and> exportRow x \<noteq> errorRow x
               \<and> exportRow_part_000 x = dataRow_part_000 x p
               \<and> exportRow_part_000 x \<noteq> errorRow_part_000 x))
       \<and> (status d = 201 \<longrightarrow>
            data x = Some d \<and> error x = None
          \<and> successfulTrackings [x] = 0 \<and> failedTrackings [x] = 1
          \<and> showNotFound x \<and> \<not> showDetail x
          \<and> exportRow x = errorRow x \<and> exportRow_part_000 x = errorRow_part_000 x
          \<and> or_else (error x) (js ''Data tidak ditemukan'') = js ''Data tidak ditemukan'')"
proof -
  have nk: "\<not> no_key e" using assms(1,2) by (simp add: no_key_def)
  have res: "snd (trackResi e (length (effects s)) r) =
     (if status d \<noteq> 200 \<and> status d \<noteq> 201
      then Inl (ErrorObj (if message d = [] then js ''Gagal mengambil data tracking'' else message d))
      else Inr d)"
    using assms(1-5) by (rule trackResi_ok_body)
  from trackSingleResi_matched [OF nk assms(6,7)]
  have refl: "reflects (snd (trackResi e (length (effects s)) r)) x" ..
  show ?thesis
  proof (cases "status d = 200 \<or> status d = 201")
    case True
    with res refl have x: "data x = Some d" "error x = None" by (auto simp: reflects_def)
    have rows: "exportRow x = dataRow x p \<and> exportRow x \<noteq> errorRow x
               \<and> exportRow_part_000 x = dataRow_part_000 x p
               \<and> exportRow_part_000 x \<noteq> errorRow_part_000 x"
      if "status d = 200" "payload d = Some p" for p
      using that x dataRow_not_errorRow [of x p] dataRow_part_000_not_errorRow [of x p]
      by (simp add: exportRow_def exportRow_part_000_def)
    have counts: "successfulTrackings [x] = 1 \<and> failedTrackings [x] = 0 \<and> \<not> showNotFound x"
      if "status d = 200"
      using that x by (simp add: successfulTrackings_def failedTrackings_def showNotFound_def)
    have fail: "successfulTrackings [x] = 0 \<and> failedTrackings [x] = 1
          \<and> showNotFound x \<and> \<not> showDetail x
          \<and> exportRow x = errorRow x \<and> exportRow_part_000 x = errorRow_part_000 x
          \<and> or_else (error x) (js ''Data tidak ditemukan'') = js ''Data tidak ditemukan''"
      if "status d = 201"
      using that x
      by (simp add: successfulTrackings_def failedTrackings_def showNotFound_def showDetail_def
          exportRow_def exportRow_part_000_def or_else_def split: option.splits)
    from True x rows counts fail show ?thesis by blast
  next
    case False
    with res refl have "data x = None" by (auto simp: reflects_def)
    with False show ?thesis by simp
  qed
qed

theorem status_201_success_counted_as_failure_witness:
  "status body_201 = 201
   \<and> item_201 \<in> set (resiList (last (trackSingleResi env_201 (js ''P1'') app_offline)))
   \<and> data item_201 = Some body_201 \<and> error item_201 = None
   \<and> successfulTrackings [item_201] = 0 \<and> failedTrackings [item_201] = 1
   \<and> showNotFound item_201
   \<and> exportRow item_201 = errorRow item_201
   \<and> status body_200 = 200
   \<and> item_200 \<in> set (resiList (last (trackSingleResi env_200 (js ''P2'') app_new)))
   \<and> successfulTrackings [item_200] = 1 \<and> failedTrackings [item_200] = 0
   \<and> \<not> showNotFound item_200
   \<and> exportRow item_200 = dataRow item_200 payload_1
   \<and> exportRow item_200 \<noteq> errorRow item_200"
proof -
  have n: "js ''k'' \<noteq> []" by (simp add: js_def)
  have k1: "API_KEY env_201 = Some (js ''k'')" by (simp add: env_201_def)
  have f1: "fetch env_201 (length (effects app_offline)) (track_url (js ''k'') (js ''P1'')) =
           Inr \<lparr>ok = True, http_status = 200, json = Inr body_201\<rparr>"
    by (simp add: env_201_def)
  have o1: "ok \<lparr>ok = True, http_status = 200, json = Inr body_201\<rparr>" by simp
  have j1: "json \<lparr>ok = True, http_status = 200, json = Inr body_201\<rparr> = Inr body_201" by simp
  have r1: "resi item_201 = js ''P1''" by (simp add: item_201_def)
  have s1: "status body_201 = 201" by (simp add: body_201_def)
  have k2: "API_KEY env_200 = Some (js ''k'')" by (simp add: env_200_def)
  have f2: "fetch env_200 (length (effects app_new)) (track_url (js ''k'') (js ''P2'')) =
           Inr \<lparr>ok = True, http_status = 200, json = Inr body_200\<rparr>"
    by (simp add: env_200_def)
  have o2: "ok \<lparr>ok = True, http_status = 200, json = Inr body_200\<rparr>" by simp
  have j2: "json \<lparr>ok = True, http_status = 200, json = Inr body_200\<rparr> = Inr body_200" by simp
  have r2: "resi item_200 = js ''P2''" by (simp add: item_200_def)
  have s2: "status body_200 = 200" by (simp add: body_200_def)
  have p2: "payload body_200 = Some payload_1" by (simp add: body_200_def)
  from status_201_success_counted_as_failure [OF k1 n f1 o1 j1 refresh_P1_201 r1] s1
  have a: "data item_201 = Some body_201 \<and> error item_201 = None
   \<and> successfulTrackings [item_201] = 0 \<and> failedTrackings [item_201] = 1
   \<and> showNotFound item_201 \<and> exportRow item_201 = errorRow item_201" by simp
  from status_201_success_counted_as_failure [OF k2 n f2 o2 j2 refresh_P2_200 r2] s2 p2
  have b: "successfulTrackings [item_200] = 1 \<and> failedTrackings [item_200] = 0
   \<and> \<not> showNotFound item_200
   \<and> exportRow item_200 = dataRow item_200 payload_1
   \<and> exportRow item_200 \<noteq> errorRow item_200" by blast
  from a b s1 s2 refresh_P1_201 refresh_P2_200 show ?thesis by blast
qed

end
